theory Spec2Isabelle
  imports Main "HOL-Library.Word" "HOL-Library.Multiset"
begin

unbundle bit_operations_syntax

section \<open>JavaScript strings\<close>

text \<open>
  A JavaScript string is a sequence of 16-bit UTF-16 code units. \<open>length\<close>, \<open>split\<close>,
  \<open>trim\<close> and \<open>includes\<close> all work on code units, so the model keeps them as
  \<open>16 word\<close>. ASCII literals of the source are written through \<open>ascii\<close>; the Japanese
  literals are given by their code units.
\<close>

type_synonym jschar = "16 word"

type_synonym jsstring = "jschar list"

definition ascii :: "string \<Rightarrow> jsstring" where
  "ascii s = map (\<lambda>c. of_nat (of_char c)) s"

text \<open>
  The characters that \<open>String.prototype.trim\<close> strips and that the regular expression
  class \<open>\s\<close> matches: ECMAScript WhiteSpace and LineTerminator.
\<close>

definition isWhiteSpace :: "jschar \<Rightarrow> bool" where
  "isWhiteSpace c = (c \<in> set [0x0009, 0x000A, 0x000B, 0x000C, 0x000D, 0x0020, 0x00A0, 0x1680,
      0x2000, 0x2001, 0x2002, 0x2003, 0x2004, 0x2005, 0x2006, 0x2007, 0x2008, 0x2009, 0x200A,
      0x2028, 0x2029, 0x202F, 0x205F, 0x3000, 0xFEFF])"

text \<open>The regular expression class \<open>\d\<close>: the ASCII digits.\<close>

definition isDigit :: "jschar \<Rightarrow> bool" where
  "isDigit c = (0x0030 \<le> c \<and> c \<le> 0x0039)"

definition trim :: "jsstring \<Rightarrow> jsstring" where
  "trim s = rev (dropWhile isWhiteSpace (rev (dropWhile isWhiteSpace s)))"

text \<open>
  \<open>String.prototype.split(separator)\<close> with a string separator: the string is scanned from
  the left; at each position where the separator starts, the segment collected so far is
  emitted and scanning resumes behind the separator; the rest is the last segment. The empty
  string gives one empty segment. An empty separator splits into single code units.
\<close>

fun split_from :: "jsstring \<Rightarrow> jsstring \<Rightarrow> jsstring \<Rightarrow> jsstring list" where
  "split_from sep seg [] = [seg]"
| "split_from sep seg (c # cs) =
     (if sep \<noteq> [] \<and> take (length sep) (c # cs) = sep
      then seg # split_from sep [] (drop (length sep) (c # cs))
      else split_from sep (seg @ [c]) cs)"

definition split_str :: "jsstring \<Rightarrow> jsstring \<Rightarrow> jsstring list" where
  "split_str sep s = (if sep = [] then map (\<lambda>c. [c]) s else split_from sep [] s)"

text \<open>
  The regular expression \<open>/\d+\.\s+/\<close> tried at the start of a string; the result is the
  length of the match. Both \<open>\d+\<close> and \<open>\s+\<close> are greedy, and giving back a digit
  can never help (the next character would have to be the dot), so the match takes the
  longest run of digits, one dot, and the longest run of white space.
\<close>

definition match_marker :: "jsstring \<Rightarrow> nat option" where
  "match_marker s =
     (let ds = takeWhile isDigit s; r1 = dropWhile isDigit s in
      if ds = [] then None
      else (case r1 of
              [] \<Rightarrow> None
            | c # r2 \<Rightarrow>
                if c \<noteq> 0x002E then None
                else (let ws = takeWhile isWhiteSpace r2 in
                      if ws = [] then None else Some (length ds + 1 + length ws))))"

lemma match_marker_pos: "match_marker s = Some n \<Longrightarrow> 0 < n"
  by (auto simp: match_marker_def Let_def split: if_splits list.splits)

text \<open>
  \<open>String.prototype.split(/\d+\.\s+/)\<close>: as \<open>split_from\<close>, with the regular expression
  tried at each position. The expression has no capture group, so nothing but the segments
  is emitted.
\<close>

function (sequential) split_marker_from :: "jsstring \<Rightarrow> jsstring \<Rightarrow> jsstring list" where
  "split_marker_from seg [] = [seg]"
| "split_marker_from seg (c # cs) =
     (case match_marker (c # cs) of
        Some n \<Rightarrow> seg # split_marker_from [] (drop n (c # cs))
      | None \<Rightarrow> split_marker_from (seg @ [c]) cs)"
  by pat_completeness auto

termination
proof (relation "measure (\<lambda>(seg, s). length s)")
  show "wf (measure (\<lambda>(seg, s). length s))"
    by simp
next
  fix seg :: jsstring and c cs n
  assume "match_marker (c # cs) = Some n"
  then have "0 < n"
    by (rule match_marker_pos)
  then show "(([], drop n (c # cs)), (seg, c # cs)) \<in> measure (\<lambda>(seg, s). length s)"
    by simp
next
  fix seg :: jsstring and c cs
  show "((seg @ [c], cs), (seg, c # cs)) \<in> measure (\<lambda>(seg, s). length s)"
    by simp
qed

definition split_marker :: "jsstring \<Rightarrow> jsstring list" where
  "split_marker s = split_marker_from [] s"

text \<open>\<open>Array.prototype.join\<close> on strings.\<close>

fun join :: "jsstring \<Rightarrow> jsstring list \<Rightarrow> jsstring" where
  "join sep [] = []"
| "join sep [x] = x"
| "join sep (x # y # ys) = x @ sep @ join sep (y # ys)"

text \<open>\<open>String.prototype.includes\<close>: the pattern occurs at some position.\<close>

fun includes_str :: "jsstring \<Rightarrow> jsstring \<Rightarrow> bool" where
  "includes_str [] pat = (pat = [])"
| "includes_str (c # cs) pat = (take (length pat) (c # cs) = pat \<or> includes_str cs pat)"

text \<open>\<open>Array.prototype.slice(a, b)\<close> for indices that are not negative.\<close>

definition slice :: "nat \<Rightarrow> nat \<Rightarrow> 'a list \<Rightarrow> 'a list" where
  "slice a b xs = take (b - a) (drop a xs)"

text \<open>
  The decimal rendering of a count, an index or a time stamp inside a template literal
  (\<open>`${i}`\<close>): such numbers are integers that are not negative and far below 10^21, where
  JavaScript prints plain decimal digits.
\<close>

fun to_decimal :: "nat \<Rightarrow> jsstring" where
  "to_decimal n =
     (if n < 10 then [of_nat (48 + n)]
      else to_decimal (n div 10) @ [of_nat (48 + n mod 10)])"

declare to_decimal.simps [simp del]

section \<open>JavaScript values, errors and responses\<close>

text \<open>
  A value of a parsed JSON request body, or a value handed to \<open>res.json\<close>. A number is
  an IEEE 754 double, kept as its bit pattern.
\<close>

datatype jsvalue =
    JUndefined
  | JNull
  | JBool bool
  | JNum "64 word"
  | JStr jsstring
  | JArr "jsvalue list"
  | JObj "(jsstring \<times> jsvalue) list"

text \<open>
  Truthiness, as \<open>!v\<close> and \<open>v || w\<close> read it: \<open>undefined\<close>, \<open>null\<close>,
  \<open>false\<close>, the zeros, NaN and the empty string are falsy; every array and object is truthy.
\<close>

definition isZeroDouble :: "64 word \<Rightarrow> bool" where
  "isZeroDouble w = (w AND 0x7FFFFFFFFFFFFFFF = 0)"

definition isNaNDouble :: "64 word \<Rightarrow> bool" where
  "isNaNDouble w =
     (w AND 0x7FF0000000000000 = 0x7FF0000000000000 \<and> w AND 0x000FFFFFFFFFFFFF \<noteq> 0)"

fun truthy :: "jsvalue \<Rightarrow> bool" where
  "truthy JUndefined = False"
| "truthy JNull = False"
| "truthy (JBool b) = b"
| "truthy (JNum w) = (\<not> isZeroDouble w \<and> \<not> isNaNDouble w)"
| "truthy (JStr s) = (s \<noteq> [])"
| "truthy (JArr vs) = True"
| "truthy (JObj kvs) = True"

fun isArray :: "jsvalue \<Rightarrow> bool" where
  "isArray (JArr vs) = True"
| "isArray v = False"

text \<open>
  \<open>express.json()\<close> leaves \<open>req.body\<close> an object: the members of the JSON object
  sent, or none when there was no JSON body. Destructuring a member that is absent gives
  \<open>undefined\<close>.
\<close>

type_synonym request_body = "(jsstring \<times> jsvalue) list"

definition field :: "request_body \<Rightarrow> string \<Rightarrow> jsvalue" where
  "field b k = (case map_of b (ascii k) of Some v \<Rightarrow> v | None \<Rightarrow> JUndefined)"

datatype js_error = JsError (err_message: jsstring) (err_stack: jsstring)

datatype response = Response (res_status: nat) (res_body: jsvalue)

text \<open>The first error of a list of results, or all the results.\<close>

fun collect :: "('e + 'a) list \<Rightarrow> 'e + 'a list" where
  "collect [] = Inr []"
| "collect (Inl e # rs) = Inl e"
| "collect (Inr x # rs) = (case collect rs of Inl e \<Rightarrow> Inl e | Inr xs \<Rightarrow> Inr (x # xs))"

section \<open>The external providers and the state of the process\<close>

type_synonym vector = "64 word list"

record pinecone_record =
  rec_id :: jsstring
  rec_values :: vector
  meta_pageContent :: jsstring
  meta_source :: jsvalue

record document =
  pageContent :: jsstring
  doc_source :: jsstring

record pinecone_match =
  match_metadata :: "(jsstring \<times> jsvalue) list option"

text \<open>
  Every call that leaves the process is an event of the trace, in the order the calls are
  made: the embedding provider, the vector index (query and upsert), the language model,
  and the reads of the clock. \<open>InitChain\<close> marks one run of \<open>initChain\<close>, that is one
  construction of the pipeline; \<open>KnowledgeCheck\<close> marks the start of the constructor's
  knowledge check. That check is not awaited: its own provider calls run beside the requests
  and are no part of what a handler does, so the trace holds its start only.
\<close>

datatype event =
    EmbedQuery jsvalue
  | IndexQuery vector nat
  | IndexUpsert "pinecone_record list"
  | ModelCall jsvalue "document list"
  | DateNow
  | InitChain
  | KnowledgeCheck

text \<open>
  The providers answer as they like: each answer is a function of the calls made so far and
  of the call's argument. \<open>number_to_string\<close> is the runtime's rendering of a double and
  \<open>stack_trace\<close> the stack it attaches to an error it raises.
\<close>

record providers =
  embedQuery :: "event list \<Rightarrow> jsvalue \<Rightarrow> js_error + vector"
  index_query :: "event list \<Rightarrow> vector \<Rightarrow> js_error + pinecone_match list option"
  index_upsert :: "event list \<Rightarrow> pinecone_record list \<Rightarrow> js_error option"
  model_call :: "event list \<Rightarrow> jsvalue \<Rightarrow> document list \<Rightarrow> js_error + jsstring"
  date_now :: "event list \<Rightarrow> nat"
  init_chain :: "event list \<Rightarrow> js_error option"
  pinecone_index :: "js_error option"
  node_env :: "jsstring option"
  open_api_key :: "jsstring option"
  number_to_string :: "64 word \<Rightarrow> jsstring"
  stack_trace :: "jsstring \<Rightarrow> jsstring"

text \<open>
  A \<open>SalesCoachAgent\<close> holds the promise of its pipeline: the error \<open>initChain\<close> failed
  with, or the pipeline, named by the number of the \<open>initChain\<close> run that built it.
\<close>

record agent =
  chainPromise :: "js_error + nat"

record world =
  trace :: "event list"
  files :: "jsstring \<Rightarrow> jsstring option"
  agent_instance :: "agent option"

definition log_event :: "event \<Rightarrow> world \<Rightarrow> world" where
  "log_event e w = w\<lparr>trace := trace w @ [e]\<rparr>"

definition thrown :: "providers \<Rightarrow> string \<Rightarrow> js_error" where
  "thrown P m = JsError (ascii m) (stack_trace P (ascii m))"

text \<open>
  \<open>String(v)\<close> and \<open>${v}\<close> in a template literal. An object parsed from JSON prints as
  \<open>[object Object]\<close>, unless it has a member named \<open>toString\<close> (which is no function):
  then the conversion raises a TypeError. An array joins its elements with commas, the
  elements \<open>undefined\<close> and \<open>null\<close> printed as nothing.
\<close>

fun to_string :: "providers \<Rightarrow> jsvalue \<Rightarrow> js_error + jsstring" where
  "to_string P JUndefined = Inr (ascii ''undefined'')"
| "to_string P JNull = Inr (ascii ''null'')"
| "to_string P (JBool b) = Inr (if b then ascii ''true'' else ascii ''false'')"
| "to_string P (JNum w) = Inr (number_to_string P w)"
| "to_string P (JStr s) = Inr s"
| "to_string P (JArr vs) =
     (case collect (map (\<lambda>v. if v = JUndefined \<or> v = JNull then Inr [] else to_string P v) vs) of
        Inl e \<Rightarrow> Inl e
      | Inr ss \<Rightarrow> Inr (join (ascii '','') ss))"
| "to_string P (JObj kvs) =
     (if map_of kvs (ascii ''toString'') = None then Inr (ascii ''[object Object]'')
      else Inl (thrown P ''Cannot convert object to primitive value''))"

text \<open>
  Reading a member \<open>v.k\<close>: a TypeError on \<open>undefined\<close> and \<open>null\<close>, the member of an
  object, and \<open>undefined\<close> on anything else (no other JSON value has a member named
  \<open>speaker\<close> or \<open>text\<close>).
\<close>

fun get_member :: "providers \<Rightarrow> jsvalue \<Rightarrow> string \<Rightarrow> js_error + jsvalue" where
  "get_member P JUndefined k = Inl (thrown P ''Cannot read properties of undefined'')"
| "get_member P JNull k = Inl (thrown P ''Cannot read properties of null'')"
| "get_member P (JObj kvs) k = Inr (field kvs k)"
| "get_member P v k = Inr JUndefined"

section \<open>The server: SalesCoachAgent\<close>

text \<open>
  The constructor starts \<open>initChain\<close> and keeps its promise, then starts the knowledge
  check without awaiting it. \<open>initChain\<close> has no \<open>await\<close>: it builds the Pinecone
  client, the retriever, the model and the chain in one go, and whatever one of these raises
  rejects the promise.
\<close>

definition initChain :: "providers \<Rightarrow> world \<Rightarrow> (js_error + nat) \<times> world" where
  "initChain P w =
     ((case init_chain P (trace w) of
         Some e \<Rightarrow> Inl e
       | None \<Rightarrow> Inr (count_list (trace w) InitChain)),
      log_event InitChain w)"

definition new_SalesCoachAgent :: "providers \<Rightarrow> world \<Rightarrow> agent \<times> world" where
  "new_SalesCoachAgent P w =
     (let (p, w1) = initChain P w in
      (\<lparr>chainPromise = p\<rparr>, log_event KnowledgeCheck w1))"

definition getInstance :: "providers \<Rightarrow> world \<Rightarrow> agent \<times> world" where
  "getInstance P w =
     (case agent_instance w of
        Some a \<Rightarrow> (a, w)
      | None \<Rightarrow>
          (let (a, w1) = new_SalesCoachAgent P w in
           (a, w1\<lparr>agent_instance := Some a\<rparr>)))"

definition default_content :: jsstring where
  "default_content =
     [0x30C7, 0x30D5, 0x30A9, 0x30EB, 0x30C8, 0x306E, 0x30B3, 0x30F3, 0x30C6, 0x30F3, 0x30C4]"

definition unknown_source :: jsstring where
  "unknown_source = [0x4E0D, 0x660E]"

text \<open>
  One match of the index as a document: the stored page content and source when they are
  there and truthy, the fixed placeholders otherwise.
\<close>

definition match_document :: "providers \<Rightarrow> pinecone_match \<Rightarrow> js_error + document" where
  "match_document P m =
     (let md = (case match_metadata m of None \<Rightarrow> [] | Some kvs \<Rightarrow> kvs);
          pc = field md ''pageContent'';
          sr = field md ''source''
      in case (if truthy pc then to_string P pc else Inr default_content) of
           Inl e \<Rightarrow> Inl e
         | Inr c \<Rightarrow>
             (case (if truthy sr then to_string P sr else Inr unknown_source) of
                Inl e \<Rightarrow> Inl e
              | Inr s \<Rightarrow> Inr \<lparr>pageContent = c, doc_source = s\<rparr>))"

text \<open>
  The retriever of the chain. Its whole body stands in a \<open>try\<close> whose \<open>catch\<close> returns
  the empty array.
\<close>

definition getRelevantDocuments :: "providers \<Rightarrow> jsvalue \<Rightarrow> world \<Rightarrow> document list \<times> world" where
  "getRelevantDocuments P query w =
     (let w1 = log_event (EmbedQuery query) w in
      case embedQuery P (trace w) query of
        Inl e \<Rightarrow> ([], w1)
      | Inr queryEmbedding \<Rightarrow>
          (let w2 = log_event (IndexQuery queryEmbedding 5) w1 in
           case index_query P (trace w1) queryEmbedding of
             Inl e \<Rightarrow> ([], w2)
           | Inr None \<Rightarrow> ([], w2)
           | Inr (Some matches) \<Rightarrow>
               (case collect (map (match_document P) matches) of
                  Inl e \<Rightarrow> ([], w2)
                | Inr docs \<Rightarrow> (docs, w2))))"

text \<open>
  Modelled from the spec: \<open>RetrievalQAChain.call\<close>, which is code of the langchain
  library and not of this repository. As the specification describes the pipeline, it asks
  the retriever for the context documents of the question and makes one call of the
  language model with the question and these documents; what the model answers, or the
  error it fails with, is the result.
\<close>

definition chain_call :: "providers \<Rightarrow> jsvalue \<Rightarrow> world \<Rightarrow> (js_error + jsstring) \<times> world" where
  "chain_call P question w =
     (let (docs, w1) = getRelevantDocuments P question w in
      (model_call P (trace w1) question docs, log_event (ModelCall question docs) w1))"

definition ask :: "providers \<Rightarrow> agent \<Rightarrow> jsvalue \<Rightarrow> world \<Rightarrow> (js_error + jsstring) \<times> world" where
  "ask P a question w =
     (case chainPromise a of
        Inl e \<Rightarrow> (Inl e, w)
      | Inr chain \<Rightarrow> chain_call P question w)"

section \<open>The server: the routes\<close>

definition internal_error :: "providers \<Rightarrow> js_error \<Rightarrow> response" where
  "internal_error P e =
     Response 500 (JObj
       [(ascii ''error'', JStr (ascii ''Internal Server Error'')),
        (ascii ''message'', JStr (err_message e)),
        (ascii ''stack'',
           if node_env P = Some (ascii ''development'') then JStr (err_stack e) else JUndefined)])"

definition missing_question :: response where
  "missing_question =
     Response 400 (JObj [(ascii ''error'', JStr (ascii ''Missing 'question' in request body''))])"

text \<open>
  POST /ask. The log line in front of the check prints the question in a template literal,
  outside the \<open>try\<close>: when that conversion raises, the handler ends with the error and
  sends no response (\<open>Inl\<close>).
\<close>

definition askRoute_post :: "providers \<Rightarrow> request_body \<Rightarrow> world \<Rightarrow> (js_error + response) \<times> world" where
  "askRoute_post P b w =
     (let question = field b ''question'' in
      case to_string P question of
        Inl e \<Rightarrow> (Inl e, w)
      | Inr logged \<Rightarrow>
          if \<not> truthy question then (Inr missing_question, w)
          else (let (a, w1) = getInstance P w in
                case ask P a question w1 of
                  (Inl e, w2) \<Rightarrow> (Inr (internal_error P e), w2)
                | (Inr answer, w2) \<Rightarrow>
                    (Inr (Response 200 (JObj [(ascii ''answer'', JStr answer)])), w2)))"

definition invalid_conversation :: response where
  "invalid_conversation =
     Response 400 (JObj [(ascii ''error'', JStr
       [0x6709, 0x52B9, 0x306A, 0x4F1A, 0x8A71, 0x30C7, 0x30FC, 0x30BF, 0x304C, 0x5FC5, 0x8981,
        0x3067, 0x3059])])"

definition prompt_head :: jsstring where
  "prompt_head =
    [
     0x000A, 0x4EE5, 0x4E0B, 0x306F, 0x5546, 0x8AC7, 0x306E, 0x4F1A, 0x8A71, 0x3067, 0x3059,
     0x3002, 0x3053, 0x306E, 0x4F1A, 0x8A71, 0x3092, 0x5206, 0x6790, 0x3057, 0x3001, 0x4EE5,
     0x4E0B, 0x306E, 0x0033, 0x3064, 0x306E, 0x30AB, 0x30C6, 0x30B4, 0x30EA, 0x306B, 0x5206,
     0x3051, 0x3066, 0x7C21, 0x6F54, 0x306A, 0x30A2, 0x30C9, 0x30D0, 0x30A4, 0x30B9, 0x3092,
     0x63D0, 0x4F9B, 0x3057, 0x3066, 0x304F, 0x3060, 0x3055, 0x3044, 0x003A, 0x000A, 0x000A,
     0x0031, 0x002E, 0x0020, 0x8CEA, 0x554F, 0x4F8B, 0x003A, 0x6B21, 0x306B, 0x5C0B, 0x306D,
     0x308B, 0x3079, 0x304D, 0x5177, 0x4F53, 0x7684, 0x306A, 0x8CEA, 0x554F, 0x3092, 0x0032,
     0x002D, 0x0033, 0x500B, 0x000A, 0x0032, 0x002E, 0x0020, 0x6B21, 0x306E, 0x30B9, 0x30C6,
     0x30C3, 0x30D7, 0x003A, 0x5546, 0x8AC7, 0x3092, 0x9032, 0x3081, 0x308B, 0x305F, 0x3081,
     0x306E, 0x6B21, 0x306E, 0x30A2, 0x30AF, 0x30B7, 0x30E7, 0x30F3, 0x3092, 0x0031, 0x002D,
     0x0032, 0x500B, 0x000A, 0x0033, 0x002E, 0x0020, 0x305D, 0x306E, 0x4ED6, 0x63D0, 0x6848,
     0x003A, 0x5546, 0x8AC7, 0x3092, 0x6210, 0x529F, 0x3055, 0x305B, 0x308B, 0x305F, 0x3081,
     0x306E, 0x30D2, 0x30F3, 0x30C8, 0x3092, 0x0031, 0x002D, 0x0032, 0x500B, 0x000A, 0x000A,
     0x56DE, 0x7B54, 0x306F, 0x5404, 0x30AB, 0x30C6, 0x30B4, 0x30EA, 0x3054, 0x3068, 0x306B,
     0x7B87, 0x6761, 0x66F8, 0x304D, 0x3067, 0x3001, 0x8AAC, 0x660E, 0x306F, 0x5FC5, 0x8981,
     0x3042, 0x308A, 0x307E, 0x305B, 0x3093, 0x3002, 0x5177, 0x4F53, 0x7684, 0x306A, 0x5185,
     0x5BB9, 0x3060, 0x3051, 0x3092, 0x66F8, 0x3044, 0x3066, 0x304F, 0x3060, 0x3055, 0x3044,
     0x3002, 0x000A, 0x000A, 0x4F1A, 0x8A71, 0x003A, 0x000A]"

definition prompt_tail :: jsstring where
  "prompt_tail =
    [
     0x000A, 0x000A, 0x56DE, 0x7B54, 0x5F62, 0x5F0F, 0xFF1A, 0x000A, 0x8CEA, 0x554F, 0x4F8B,
     0xFF1A, 0x000A, 0x002D, 0x0020, 0x000A, 0x002D, 0x0020, 0x000A, 0x000A, 0x6B21, 0x306E,
     0x30B9, 0x30C6, 0x30C3, 0x30D7, 0xFF1A, 0x000A, 0x002D, 0x0020, 0x000A, 0x000A, 0x305D,
     0x306E, 0x4ED6, 0x63D0, 0x6848, 0xFF1A, 0x000A, 0x002D, 0x0020, 0x000A]"

text \<open>One message of the conversation as \<open>`${msg.speaker}: ${msg.text}`\<close>.\<close>

definition render_message :: "providers \<Rightarrow> jsvalue \<Rightarrow> js_error + jsstring" where
  "render_message P msg =
     (case get_member P msg ''speaker'' of
        Inl e \<Rightarrow> Inl e
      | Inr sp \<Rightarrow>
          (case to_string P sp of
             Inl e \<Rightarrow> Inl e
           | Inr s \<Rightarrow>
               (case get_member P msg ''text'' of
                  Inl e \<Rightarrow> Inl e
                | Inr tx \<Rightarrow>
                    (case to_string P tx of
                       Inl e \<Rightarrow> Inl e
                     | Inr t \<Rightarrow> Inr (s @ ascii '': '' @ t)))))"

definition conversationText :: "providers \<Rightarrow> jsvalue list \<Rightarrow> js_error + jsstring" where
  "conversationText P msgs =
     (case collect (map (render_message P) msgs) of
        Inl e \<Rightarrow> Inl e
      | Inr ls \<Rightarrow> Inr (join [0x000A, 0x000A] ls))"

text \<open>
  The parse of the answer: split at the numeric markers, keep the items that are not empty
  after trimming, trim them.
\<close>

definition parse_suggestions :: "jsstring \<Rightarrow> jsstring list" where
  "parse_suggestions answer =
     map trim (filter (\<lambda>item. 0 < length (trim item)) (split_marker answer))"

text \<open>The elements and the \<open>length\<close> of an array; of the other values no route reads them.\<close>

fun elements :: "jsvalue \<Rightarrow> jsvalue list" where
  "elements (JArr vs) = vs"
| "elements v = []"

text \<open>POST /coaching.\<close>

definition coaching :: "providers \<Rightarrow> request_body \<Rightarrow> world \<Rightarrow> response \<times> world" where
  "coaching P b w =
     (let conversation = field b ''conversation'' in
      if \<not> truthy conversation \<or> \<not> isArray conversation \<or> length (elements conversation) = 0
      then (invalid_conversation, w)
      else (case conversationText P (elements conversation) of
              Inl e \<Rightarrow> (internal_error P e, w)
            | Inr ct \<Rightarrow>
                (let prompt = prompt_head @ ct @ prompt_tail;
                     (a, w1) = getInstance P w
                 in case ask P a (JStr prompt) w1 of
                      (Inl e, w2) \<Rightarrow> (internal_error P e, w2)
                    | (Inr answer, w2) \<Rightarrow>
                        (Response 200 (JObj [(ascii ''suggestions'',
                           JArr (map JStr (parse_suggestions answer)))]), w2))))"

section \<open>The server: knowledge ingestion\<close>

definition text_required :: response where
  "text_required =
     Response 400 (JObj [(ascii ''error'', JStr
       [0x30C6, 0x30AD, 0x30B9, 0x30C8, 0x304C, 0x5FC5, 0x8981, 0x3067, 0x3059])])"

definition file_required :: response where
  "file_required =
     Response 400 (JObj [(ascii ''error'', JStr
       [0x30D5, 0x30A1, 0x30A4, 0x30EB, 0x304C, 0x5FC5, 0x8981, 0x3067, 0x3059])])"

text \<open>The message \<open>`${records.length}` ...\<close> of a successful ingestion.\<close>

definition added_message :: "nat \<Rightarrow> jsstring" where
  "added_message n = to_decimal n @
     [0x4EF6, 0x306E, 0x30C9, 0x30AD, 0x30E5, 0x30E1, 0x30F3, 0x30C8, 0x304C, 0x8FFD, 0x52A0,
      0x3055, 0x308C, 0x307E, 0x3057, 0x305F]"

definition added :: "nat \<Rightarrow> response" where
  "added n =
     Response 200 (JObj [(ascii ''success'', JBool True), (ascii ''message'', JStr (added_message n))])"

text \<open>The id \<open>`manual-${Date.now()}-${i}`\<close> (or \<open>file-\<close>) of a record.\<close>

definition record_id :: "string \<Rightarrow> nat \<Rightarrow> nat \<Rightarrow> jsstring" where
  "record_id pre t i = ascii pre @ ascii ''-'' @ to_decimal t @ ascii ''-'' @ to_decimal i"

text \<open>
  The loop over the chunks, \<open>i\<close> the index of the first chunk still to do and \<open>records\<close>
  the records pushed so far. A chunk that is empty after trimming is skipped. The clock is
  read for the id, and once more for the source when no source was given.
\<close>

fun chunk_records ::
  "providers \<Rightarrow> string \<Rightarrow> jsvalue \<Rightarrow> jsstring list \<Rightarrow> nat \<Rightarrow> pinecone_record list \<Rightarrow> world
     \<Rightarrow> (js_error + pinecone_record list) \<times> world" where
  "chunk_records P pre src [] i records w = (Inr records, w)"
| "chunk_records P pre src (chunk # rest) i records w =
     (if trim chunk = [] then chunk_records P pre src rest (Suc i) records w
      else (let w1 = log_event (EmbedQuery (JStr chunk)) w in
            case embedQuery P (trace w) (JStr chunk) of
              Inl e \<Rightarrow> (Inl e, w1)
            | Inr embedding \<Rightarrow>
                (let t1 = date_now P (trace w1);
                     w2 = log_event DateNow w1;
                     (source, w3) =
                        (if truthy src then (src, w2)
                         else (JStr (record_id pre (date_now P (trace w2)) i), log_event DateNow w2))
                 in chunk_records P pre src rest (Suc i)
                      (records @ [\<lparr>rec_id = record_id pre t1 i, rec_values = embedding,
                                   meta_pageContent = chunk, meta_source = source\<rparr>]) w3)))"

definition BATCH_SIZE :: nat where
  "BATCH_SIZE = 100"

text \<open>
  The loop \<open>for (let i = 0; i < records.length; i += BATCH_SIZE)\<close>: an upsert that fails
  raises, which leaves the loop.
\<close>

function upsert_batches ::
  "providers \<Rightarrow> pinecone_record list \<Rightarrow> nat \<Rightarrow> world \<Rightarrow> js_error option \<times> world" where
  "upsert_batches P records i w =
     (if i < length records
      then (let batch = slice i (i + BATCH_SIZE) records;
                w1 = log_event (IndexUpsert batch) w
            in case index_upsert P (trace w) batch of
                 Some e \<Rightarrow> (Some e, w1)
               | None \<Rightarrow> upsert_batches P records (i + BATCH_SIZE) w1)
      else (None, w))"
  by pat_completeness auto

termination
  by (relation "measure (\<lambda>(P, records, i, w). length records - i)") (auto simp: BATCH_SIZE_def)

declare upsert_batches.simps [simp del]

text \<open>
  The part both ingestion routes share: chunk, embed, build the records, upsert them in
  batches, answer. \<open>pinecone_index\<close> is what getting the client and its index raises, if
  anything.
\<close>

definition ingest ::
  "providers \<Rightarrow> string \<Rightarrow> jsvalue \<Rightarrow> jsstring \<Rightarrow> world \<Rightarrow> response \<times> world" where
  "ingest P pre src s w =
     (let chunks = split_str [0x000A, 0x000A] s in
      case pinecone_index P of
        Some e \<Rightarrow> (internal_error P e, w)
      | None \<Rightarrow>
          (case chunk_records P pre src chunks 0 [] w of
             (Inl e, w1) \<Rightarrow> (internal_error P e, w1)
           | (Inr records, w1) \<Rightarrow>
               (case upsert_batches P records 0 w1 of
                  (Some e, w2) \<Rightarrow> (internal_error P e, w2)
                | (None, w2) \<Rightarrow> (added (length records), w2))))"

text \<open>POST /knowledge/add. A \<open>text\<close> that is truthy and no string has no \<open>split\<close>.\<close>

definition knowledge_add :: "providers \<Rightarrow> request_body \<Rightarrow> world \<Rightarrow> response \<times> world" where
  "knowledge_add P b w =
     (let text = field b ''text''; source = field b ''source'' in
      if \<not> truthy text then (text_required, w)
      else (case text of
              JStr s \<Rightarrow> ingest P ''manual'' source s w
            | v \<Rightarrow> (internal_error P (thrown P ''text.split is not a function''), w)))"

text \<open>
  POST /knowledge/upload. \<open>req.file\<close> is the file multer stored under \<open>uploads/\<close>, if the
  form had one. The file is read, then unlinked, then ingested.
\<close>

record uploaded_file =
  file_path :: jsstring
  originalname :: jsstring

definition knowledge_upload :: "providers \<Rightarrow> uploaded_file option \<Rightarrow> world \<Rightarrow> response \<times> world" where
  "knowledge_upload P file w =
     (case file of
        None \<Rightarrow> (file_required, w)
      | Some f \<Rightarrow>
          (case files w (file_path f) of
             None \<Rightarrow> (internal_error P (thrown P ''ENOENT: no such file or directory''), w)
           | Some content \<Rightarrow>
               (let w1 = w\<lparr>files := (files w)(file_path f := None)\<rparr> in
                ingest P ''file'' (JStr (originalname f)) content w1)))"

section \<open>The stand-alone /ask server (src/app)\<close>

text \<open>
  The agent of \<open>sales_coach_agent.ts\<close>: a public constructor that starts \<open>initChain\<close>,
  which reads the knowledge file, checks the key and builds an in-memory store over the one
  document. Its chain holds that document.
\<close>

record app_agent =
  app_chainPromise :: "js_error + nat \<times> jsstring"

definition fake_db :: jsstring where
  "fake_db = ascii ''data/fake_db.txt''"

definition app_initChain :: "providers \<Rightarrow> world \<Rightarrow> (js_error + nat \<times> jsstring) \<times> world" where
  "app_initChain P w =
     (let w1 = log_event InitChain w in
      case files w fake_db of
        None \<Rightarrow> (Inl (thrown P ''ENOENT: no such file or directory''), w1)
      | Some content \<Rightarrow>
          if open_api_key P = None \<or> open_api_key P = Some []
          then (Inl (thrown P ''OPEN_API_KEY is not set in environment variables.''), w1)
          else (case init_chain P (trace w) of
                  Some e \<Rightarrow> (Inl e, w1)
                | None \<Rightarrow> (Inr (count_list (trace w) InitChain, content), w1)))"

definition app_new_SalesCoachAgent :: "providers \<Rightarrow> world \<Rightarrow> app_agent \<times> world" where
  "app_new_SalesCoachAgent P w =
     (let (p, w1) = app_initChain P w in (\<lparr>app_chainPromise = p\<rparr>, w1))"

text \<open>
  \<open>ask\<close> on that agent: the retriever of the in-memory store embeds the question (an error
  here is not caught) and returns the one stored document.
\<close>

definition app_ask ::
  "providers \<Rightarrow> app_agent \<Rightarrow> jsvalue \<Rightarrow> world \<Rightarrow> (js_error + jsstring) \<times> world" where
  "app_ask P a question w =
     (case app_chainPromise a of
        Inl e \<Rightarrow> (Inl e, w)
      | Inr (chain, content) \<Rightarrow>
          (let w1 = log_event (EmbedQuery question) w in
           case embedQuery P (trace w) question of
             Inl e \<Rightarrow> (Inl e, w1)
           | Inr v \<Rightarrow>
               (let docs = [\<lparr>pageContent = content, doc_source = []\<rparr>] in
                (model_call P (trace w1) question docs, log_event (ModelCall question docs) w1))))"

text \<open>POST /ask of \<open>src/app/src/ask.ts\<close>: a new agent for each request.\<close>

definition app_askRoute_post :: "providers \<Rightarrow> request_body \<Rightarrow> world \<Rightarrow> response \<times> world" where
  "app_askRoute_post P b w =
     (let question = field b ''question'' in
      if \<not> truthy question then (missing_question, w)
      else (let (a, w1) = app_new_SalesCoachAgent P w in
            case app_ask P a question w1 of
              (Inl e, w2) \<Rightarrow>
                (Response 500 (JObj [(ascii ''error'', JStr (ascii ''Internal Server Error''))]), w2)
            | (Inr answer, w2) \<Rightarrow> (Response 200 (JObj [(ascii ''answer'', JStr answer)]), w2)))"

section \<open>The client: getCoachingSuggestions\<close>

record suggestion_set =
  questions :: "jsvalue list"
  nextSteps :: "jsvalue list"
  tips :: "jsvalue list"

definition kw_shitsumon :: jsstring where "kw_shitsumon = [0x8CEA, 0x554F]"

definition kw_kiku :: jsstring where "kw_kiku = [0x805E, 0x304F]"

definition kw_hearing :: jsstring where "kw_hearing = [0x30D2, 0x30A2, 0x30EA, 0x30F3, 0x30B0]"

definition kw_tsugi :: jsstring where "kw_tsugi = [0x6B21]"

definition kw_step :: jsstring where "kw_step = [0x30B9, 0x30C6, 0x30C3, 0x30D7]"

definition kw_susumeru :: jsstring where "kw_susumeru = [0x9032, 0x3081, 0x308B]"

text \<open>
  \<open>suggestion.includes(k)\<close>: a string has the pattern at some position, an array has the
  string among its elements; no other value parsed from JSON has an \<open>includes\<close> method,
  and the call raises.
\<close>

fun has_includes :: "jsvalue \<Rightarrow> bool" where
  "has_includes (JStr s) = True"
| "has_includes (JArr vs) = True"
| "has_includes v = False"

fun js_includes :: "jsvalue \<Rightarrow> jsstring \<Rightarrow> bool" where
  "js_includes (JStr s) k = includes_str s k"
| "js_includes (JArr vs) k = (JStr k \<in> set vs)"
| "js_includes v k = False"

text \<open>The \<open>forEach\<close> over the suggestions; \<open>None\<close> when a call of \<open>includes\<close> raises.\<close>

fun bucketing :: "jsvalue list \<Rightarrow> suggestion_set \<Rightarrow> suggestion_set option" where
  "bucketing [] r = Some r"
| "bucketing (suggestion # rest) r =
     (if \<not> has_includes suggestion then None
      else if js_includes suggestion kw_shitsumon \<or> js_includes suggestion kw_kiku
              \<or> js_includes suggestion kw_hearing
      then bucketing rest (r\<lparr>questions := questions r @ [suggestion]\<rparr>)
      else if js_includes suggestion kw_tsugi \<or> js_includes suggestion kw_step
              \<or> js_includes suggestion kw_susumeru
      then bucketing rest (r\<lparr>nextSteps := nextSteps r @ [suggestion]\<rparr>)
      else bucketing rest (r\<lparr>tips := tips r @ [suggestion]\<rparr>))"

text \<open>
  The categorisation: the buckets, or, when no suggestion went to the questions, the three
  slices of the suggestions at \<open>third = Math.ceil(length / 3)\<close>.
\<close>

definition categorize :: "jsvalue list \<Rightarrow> suggestion_set option" where
  "categorize suggestions =
     (case bucketing suggestions \<lparr>questions = [], nextSteps = [], tips = []\<rparr> of
        None \<Rightarrow> None
      | Some r \<Rightarrow>
          Some (if length (questions r) = 0
                then (let third = (length suggestions + 2) div 3 in
                      \<lparr>questions = slice 0 third suggestions,
                       nextSteps = slice third (third * 2) suggestions,
                       tips = drop (third * 2) suggestions\<rparr>)
                else r))"

definition fetch_failed :: suggestion_set where
  "fetch_failed =
     \<lparr>questions = [JStr
        [0x30B3, 0x30FC, 0x30C1, 0x30F3, 0x30B0, 0x63D0, 0x6848, 0x306E, 0x53D6, 0x5F97, 0x4E2D,
         0x306B, 0x30A8, 0x30E9, 0x30FC, 0x304C, 0x767A, 0x751F, 0x3057, 0x307E, 0x3057, 0x305F,
         0x3002]],
      nextSteps = [], tips = []\<rparr>"

text \<open>
  \<open>getCoachingSuggestions\<close> on the outcome of its \<open>fetch\<close>: no response at all
  (\<open>None\<close>), or the response of the server. Everything that raises ends in the \<open>catch\<close>.
\<close>

definition getCoachingSuggestions :: "response option \<Rightarrow> suggestion_set" where
  "getCoachingSuggestions r =
     (case r of
        None \<Rightarrow> fetch_failed
      | Some (Response st data) \<Rightarrow>
          if \<not> (200 \<le> st \<and> st \<le> 299) then fetch_failed
          else (case data of
                  JUndefined \<Rightarrow> fetch_failed
                | JNull \<Rightarrow> fetch_failed
                | JObj kvs \<Rightarrow>
                    (case field kvs ''suggestions'' of
                       JArr suggestions \<Rightarrow>
                         (case categorize suggestions of
                            None \<Rightarrow> fetch_failed
                          | Some res \<Rightarrow> res)
                     | v \<Rightarrow> \<lparr>questions = [], nextSteps = [], tips = []\<rparr>)
                | v \<Rightarrow> \<lparr>questions = [], nextSteps = [], tips = []\<rparr>))"

section \<open>A concrete environment\<close>

text \<open>
  Providers that all answer, and a process that has just started: no call made yet, no file,
  no agent. The theorems below are run on them.
\<close>

definition calm :: providers where
  "calm =
     \<lparr>embedQuery = (\<lambda>tr q. Inr []),
      index_query = (\<lambda>tr v. Inr (Some [])),
      index_upsert = (\<lambda>tr rs. None),
      model_call = (\<lambda>tr q docs. Inr (ascii ''1. ask about budget 2. next: send a quote'')),
      date_now = (\<lambda>tr. 1700000000000 + length tr),
      init_chain = (\<lambda>tr. None),
      pinecone_index = None,
      node_env = None,
      open_api_key = Some (ascii ''sk-test''),
      number_to_string = (\<lambda>w. ascii ''0''),
      stack_trace = (\<lambda>m. [])\<rparr>"

definition fresh :: world where
  "fresh = \<lparr>trace = [], files = (\<lambda>p. None), agent_instance = None\<rparr>"

definition short_talk :: request_body where
  "short_talk =
     [(ascii ''conversation'',
       JArr [JObj [(ascii ''speaker'', JStr (ascii ''user'')), (ascii ''text'', JStr (ascii ''hi''))]])]"

definition add_AB :: request_body where
  "add_AB = [(ascii ''text'', JStr (ascii ''A'' @ [0x000A, 0x000A] @ ascii ''B'' @ [0x000A, 0x000A]))]"


definition no_embedding :: providers where
  "no_embedding = calm\<lparr>embedQuery := (\<lambda>tr q. Inl (JsError (ascii ''embedding failed'') []))\<rparr>"

definition index_down :: providers where
  "index_down = calm\<lparr>index_query := (\<lambda>tr v. Inl (JsError (ascii ''index unreachable'') []))\<rparr>"




definition with_fake_db :: world where
  "with_fake_db = fresh\<lparr>files := (\<lambda>p. if p = fake_db then Some (ascii ''our knowledge'') else None)\<rparr>"

definition asked :: request_body where
  "asked = [(ascii ''question'', JStr (ascii ''hi''))]"




section \<open>What a run shows\<close>

text \<open>
  Functions that read a text, a list of records or the calls of a run; the theorems are
  stated with them.
\<close>


definition paragraphs :: "jsstring \<Rightarrow> jsstring list" where
  "paragraphs s = filter (\<lambda>seg. trim seg \<noteq> []) (split_str [0x000A, 0x000A] s)"

fun upserted :: "event list \<Rightarrow> pinecone_record list" where
  "upserted [] = []"
| "upserted (IndexUpsert rs # evs) = rs @ upserted evs"
| "upserted (e # evs) = upserted evs"

function batches_of :: "nat \<Rightarrow> 'a list \<Rightarrow> 'a list list" where
  "batches_of n xs = (if n = 0 \<or> xs = [] then [] else take n xs # batches_of n (drop n xs))"
  by pat_completeness auto

termination
  by (relation "measure (\<lambda>(n, xs). length xs)") auto

declare batches_of.simps [simp del]

text \<open>
  The answer of the index to batch \<open>j\<close> of \<open>bs\<close>, asked after the batches before it,
  in a process whose calls so far are \<open>tr\<close>.
\<close>

definition batch_answer ::
  "providers \<Rightarrow> event list \<Rightarrow> pinecone_record list list \<Rightarrow> nat \<Rightarrow> js_error option" where
  "batch_answer P tr bs j = index_upsert P (tr @ map IndexUpsert (take j bs)) (bs ! j)"


text \<open>
  The knowledge store gives nothing for a question: the embedding call fails, or the query
  of the index fails or has no list of matches, or the index has no match.
\<close>

definition store_gives_nothing :: "providers \<Rightarrow> jsvalue \<Rightarrow> world \<Rightarrow> bool" where
  "store_gives_nothing P q w =
     (case embedQuery P (trace w) q of
        Inl e \<Rightarrow> True
      | Inr v \<Rightarrow>
          (case index_query P (trace w @ [EmbedQuery q]) v of
             Inl e \<Rightarrow> True
           | Inr None \<Rightarrow> True
           | Inr (Some ms) \<Rightarrow> ms = []))"

text \<open>
  The requests of the integrated server, and the server handling them one after the other.
  A handler runs without interruption up to its first \<open>await\<close>, and \<open>getInstance\<close> has
  none: looking the instance up and storing a new one is one step, also when requests
  overlap.
\<close>

datatype request =
    PostAsk request_body
  | PostCoaching request_body
  | PostKnowledgeAdd request_body
  | PostKnowledgeUpload "uploaded_file option"

fun handle :: "providers \<Rightarrow> request \<Rightarrow> world \<Rightarrow> world" where
  "handle P (PostAsk b) w = snd (askRoute_post P b w)"
| "handle P (PostCoaching b) w = snd (coaching P b w)"
| "handle P (PostKnowledgeAdd b) w = snd (knowledge_add P b w)"
| "handle P (PostKnowledgeUpload f) w = snd (knowledge_upload P f w)"

definition serve :: "providers \<Rightarrow> request list \<Rightarrow> world \<Rightarrow> world" where
  "serve P reqs w = foldl (\<lambda>w r. handle P r w) w reqs"

text \<open>As many pipelines were built as there are agents: none, or the one instance.\<close>

definition single_pipeline :: "world \<Rightarrow> bool" where
  "single_pipeline w =
     (count_list (trace w) InitChain = (case agent_instance w of None \<Rightarrow> 0 | Some a \<Rightarrow> 1))"

section \<open>The JavaScript functions on examples\<close>

text \<open>
  What the models of \<open>split\<close>, \<open>trim\<close>, truthiness, the decimal rendering and the
  batches give on inputs whose JavaScript results are known.
\<close>

lemma split_str_examples:
  "split_str [0x000A, 0x000A] (ascii ''A'' @ [0x000A, 0x000A] @ ascii ''B'' @ [0x000A, 0x000A])
     = [ascii ''A'', ascii ''B'', []]"
  "split_str [0x000A, 0x000A] [0x000A, 0x000A, 0x000A] = [[], [0x000A]]"
  "split_str [0x000A, 0x000A] (ascii ''A'' @ [0x000A] @ ascii ''B'') = [ascii ''A'' @ [0x000A] @ ascii ''B'']"
  "split_str [0x000A, 0x000A] [] = [[]]"
  by (simp_all add: split_str_def ascii_def)

lemma trim_examples:
  "trim ([0x3000, 0x0020] @ ascii ''a b'' @ [0x000A, 0x0009]) = ascii ''a b''"
  "trim [0x0020, 0x000A, 0x00A0] = []"
  by (simp_all add: trim_def isWhiteSpace_def ascii_def)

lemma split_marker_examples:
  "split_marker (ascii ''12x3. y'') = [ascii ''12x'', ascii ''y'']"
  "split_marker (ascii ''2.5 percent'') = [ascii ''2.5 percent'']"
  "split_marker (ascii ''a 10.'' @ [0x000A, 0x0009] @ ascii ''b'') = [ascii ''a '', ascii ''b'']"
  "split_marker [] = [[]]"
  by (simp_all add: split_marker_def match_marker_def isDigit_def isWhiteSpace_def ascii_def)

lemma truthy_examples:
  "\<not> truthy (JNum 0)" "\<not> truthy (JNum 0x8000000000000000)" "\<not> truthy (JNum 0x7FF8000000000000)"
  "truthy (JNum 0x3FF0000000000000)" "truthy (JNum 0x7FF0000000000000)"
  "truthy (JStr (ascii ''0''))" "truthy (JArr [])" "\<not> truthy (JStr [])"
  by (simp_all add: isZeroDouble_def isNaNDouble_def ascii_def)

lemma to_decimal_examples:
  "to_decimal 0 = ascii ''0''" "to_decimal 100 = ascii ''100''"
  "to_decimal 1700000000000 = ascii ''1700000000000''"
  by (simp_all add: to_decimal.simps ascii_def)

lemma batches_of_example:
  "batches_of 100 (replicate 250 x) = [replicate 100 x, replicate 100 x, replicate 50 x]"
  by (simp add: batches_of.simps [of 100 "replicate 250 x"] batches_of.simps [of 100 "replicate 150 x"]
      batches_of.simps [of 100 "replicate 50 x"] batches_of.simps [of 100 "[]"] min_def)

section \<open>Request validation\<close>

lemma to_string_falsy: "\<not> truthy v \<Longrightarrow> \<exists>s. to_string P v = Inr s"
  by (cases v) auto

text \<open>
  C10. POST /ask answers 400 for every falsy \<open>question\<close>, the empty string and the absent
  member among them, on both servers; the state of the process is left as it was, so no agent
  was built and no provider called.
\<close>

theorem ask_rejects_falsy_question:
  assumes "\<not> truthy (field b ''question'')"
  shows "askRoute_post P b w = (Inr missing_question, w)
       \<and> app_askRoute_post P b w = (missing_question, w)
       \<and> res_status missing_question = 400"
proof -
  obtain s where "to_string P (field b ''question'') = Inr s"
    using to_string_falsy [OF assms] by blast
  then show ?thesis
    using assms by (simp add: askRoute_post_def app_askRoute_post_def missing_question_def)
qed

theorem ask_rejects_falsy_question_witness:
  "\<not> truthy (field [(ascii ''question'', JStr [])] ''question'')
   \<and> askRoute_post calm [(ascii ''question'', JStr [])] fresh = (Inr missing_question, fresh)
   \<and> app_askRoute_post calm [(ascii ''question'', JStr [])] fresh = (missing_question, fresh)
   \<and> \<not> truthy (field [] ''question'')
   \<and> askRoute_post calm [] fresh = (Inr missing_question, fresh)"
  using ask_rejects_falsy_question [of "[(ascii ''question'', JStr [])]" calm fresh]
    ask_rejects_falsy_question [of "[]" calm fresh]
  by (simp add: field_def)

text \<open>
  C5. POST /coaching with a \<open>conversation\<close> that is absent, no array or the empty array
  answers 400 with the one error member, and leaves the state of the process as it was: the
  agent was not asked for, and no provider was called.
\<close>

theorem coaching_rejects_invalid_conversation:
  assumes "field b ''conversation'' = JUndefined \<or> \<not> isArray (field b ''conversation'')
           \<or> field b ''conversation'' = JArr []"
  shows "coaching P b w =
           (Response 400 (JObj [(ascii ''error'', JStr
              [0x6709, 0x52B9, 0x306A, 0x4F1A, 0x8A71, 0x30C7, 0x30FC, 0x30BF, 0x304C, 0x5FC5,
               0x8981, 0x3067, 0x3059])]), w)"
  using assms by (auto simp: coaching_def invalid_conversation_def Let_def)

theorem coaching_rejects_invalid_conversation_witness:
  "coaching calm [] fresh = (invalid_conversation, fresh)
   \<and> coaching calm [(ascii ''conversation'', JArr [])] fresh = (invalid_conversation, fresh)
   \<and> coaching calm [(ascii ''conversation'', JStr (ascii ''hello''))] fresh
       = (invalid_conversation, fresh)"
  using coaching_rejects_invalid_conversation [of "[]" calm fresh]
    coaching_rejects_invalid_conversation [of "[(ascii ''conversation'', JArr [])]" calm fresh]
    coaching_rejects_invalid_conversation
      [of "[(ascii ''conversation'', JStr (ascii ''hello''))]" calm fresh]
  by (simp add: field_def invalid_conversation_def)

section \<open>The coaching suggestions\<close>

lemma bucketing_mset:
  "bucketing xs r = Some r' \<Longrightarrow>
     mset (questions r') + mset (nextSteps r') + mset (tips r')
       = mset (questions r) + mset (nextSteps r) + mset (tips r) + mset xs"
proof (induction xs arbitrary: r)
  case Nil
  then show ?case by simp
next
  case (Cons x xs)
  show ?case
  proof (cases "has_includes x")
    case False
    with Cons.prems show ?thesis by simp
  next
    case True
    let ?q = "js_includes x kw_shitsumon \<or> js_includes x kw_kiku \<or> js_includes x kw_hearing"
    let ?n = "js_includes x kw_tsugi \<or> js_includes x kw_step \<or> js_includes x kw_susumeru"
    consider (q) ?q | (n) "\<not> ?q" ?n | (t) "\<not> ?q" "\<not> ?n" by blast
    then show ?thesis
    proof cases
      case q
      with True Cons.prems have "bucketing xs (r\<lparr>questions := questions r @ [x]\<rparr>) = Some r'"
        by simp
      from Cons.IH [OF this] show ?thesis by simp
    next
      case n
      with True Cons.prems have "bucketing xs (r\<lparr>nextSteps := nextSteps r @ [x]\<rparr>) = Some r'"
        by simp
      from Cons.IH [OF this] show ?thesis by simp
    next
      case t
      with True Cons.prems have "bucketing xs (r\<lparr>tips := tips r @ [x]\<rparr>) = Some r'"
        by simp
      from Cons.IH [OF this] show ?thesis by simp
    qed
  qed
qed

lemma bucketing_strings: "\<exists>r'. bucketing (map JStr xs) r = Some r'"
  by (induction xs arbitrary: r) auto

lemma thirds_partition:
  "slice 0 t xs @ slice t (t * 2) xs @ drop (t * 2) xs = xs"
proof -
  have "take t (drop t xs) @ drop (t * 2) xs = drop t xs"
    by (metis append_take_drop_id drop_drop mult_2_right)
  then show ?thesis
    by (simp add: slice_def)
qed

lemma categorize_strings:
  "\<exists>r. categorize (map JStr xs) = Some r
       \<and> mset (questions r @ nextSteps r @ tips r) = mset (map JStr xs)"
proof -
  let ?e = "\<lparr>questions = [], nextSteps = [], tips = []\<rparr>"
  obtain r0 where r0: "bucketing (map JStr xs) ?e = Some r0"
    using bucketing_strings by blast
  have m0: "mset (questions r0) + mset (nextSteps r0) + mset (tips r0) = mset (map JStr xs)"
    using bucketing_mset [OF r0] by simp
  show ?thesis
  proof (cases "length (questions r0) = 0")
    case False
    with r0 have "categorize (map JStr xs) = Some r0"
      by (simp add: categorize_def)
    with m0 show ?thesis by (simp add: union_assoc)
  next
    case True
    let ?t = "(length (map JStr xs) + 2) div 3"
    let ?r = "\<lparr>questions = slice 0 ?t (map JStr xs),
               nextSteps = slice ?t (?t * 2) (map JStr xs),
               tips = drop (?t * 2) (map JStr xs)\<rparr>"
    from True r0 have "categorize (map JStr xs) = Some ?r"
      by (simp add: categorize_def Let_def)
    moreover have "questions ?r @ nextSteps ?r @ tips ?r = map JStr xs"
      using thirds_partition [of ?t "map JStr xs"] by simp
    ultimately show ?thesis by (metis (no_types, lifting))
  qed
qed

lemma filter_pos_length: "filter (\<lambda>item. 0 < length (trim item)) xs = filter (\<lambda>seg. trim seg \<noteq> []) xs"
  by (induction xs) auto

text \<open>
  C3. For a conversation of at least one message and any answer of the model, the three
  lists the client builds from the response of POST /coaching hold together as many items as
  the answer has segments that are not blank, and exactly the suggestions of the response,
  each as often as it occurs there: bucketing and the positional fallback neither drop nor
  repeat an item.
\<close>

theorem categorization_keeps_every_suggestion:
  assumes "field b ''conversation'' = JArr msgs" and "msgs \<noteq> []"
    and "conversationText P msgs = Inr ct"
    and "getInstance P w = (a, w1)"
    and "ask P a (JStr (prompt_head @ ct @ prompt_tail)) w1 = (Inr answer, w2)"
  shows "let r = getCoachingSuggestions (Some (fst (coaching P b w))) in
           length (questions r) + length (nextSteps r) + length (tips r)
             = length (filter (\<lambda>seg. trim seg \<noteq> []) (split_marker answer))
           \<and> mset (questions r @ nextSteps r @ tips r) = mset (map JStr (parse_suggestions answer))"
proof -
  have c: "coaching P b w =
      (Response 200 (JObj [(ascii ''suggestions'', JArr (map JStr (parse_suggestions answer)))]), w2)"
    using assms by (simp add: coaching_def Let_def)
  obtain r where r: "categorize (map JStr (parse_suggestions answer)) = Some r"
    and m: "mset (questions r @ nextSteps r @ tips r) = mset (map JStr (parse_suggestions answer))"
    using categorize_strings by blast
  have g: "getCoachingSuggestions (Some (fst (coaching P b w))) = r"
    using c r by (simp add: getCoachingSuggestions_def field_def)
  have "length (questions r @ nextSteps r @ tips r) = length (map JStr (parse_suggestions answer))"
    using m by (metis size_mset)
  then have "length (questions r) + length (nextSteps r) + length (tips r)
      = length (filter (\<lambda>seg. trim seg \<noteq> []) (split_marker answer))"
    by (simp add: parse_suggestions_def filter_pos_length)
  with m g show ?thesis by (simp add: Let_def)
qed

lemma split_marker_calm_answer:
  "split_marker (ascii ''1. ask about budget 2. next: send a quote'')
     = [[], ascii ''ask about budget '', ascii ''next: send a quote'']"
  by (simp add: split_marker_def match_marker_def ascii_def isDigit_def isWhiteSpace_def)

lemma parse_calm_answer:
  "parse_suggestions (ascii ''1. ask about budget 2. next: send a quote'')
     = [ascii ''ask about budget'', ascii ''next: send a quote'']"
  unfolding parse_suggestions_def split_marker_calm_answer
  by (simp add: trim_def ascii_def isWhiteSpace_def)

lemma getInstance_calm_fresh:
  "getInstance calm fresh =
     (\<lparr>chainPromise = Inr 0\<rparr>,
      \<lparr>trace = [InitChain, KnowledgeCheck], files = (\<lambda>p. None),
       agent_instance = Some \<lparr>chainPromise = Inr 0\<rparr>\<rparr>)"
  by (simp add: getInstance_def new_SalesCoachAgent_def initChain_def calm_def fresh_def
      log_event_def)

lemma ask_calm:
  "chainPromise a = Inr c \<Longrightarrow>
   fst (ask calm a q w) = Inr (ascii ''1. ask about budget 2. next: send a quote'')"
  by (simp add: ask_def chain_call_def getRelevantDocuments_def calm_def Let_def split_def)

theorem categorization_keeps_every_suggestion_witness:
  "(let r = getCoachingSuggestions (Some (fst (coaching calm short_talk fresh))) in
      length (questions r) + length (nextSteps r) + length (tips r) = 2
      \<and> mset (questions r @ nextSteps r @ tips r)
          = mset [JStr (ascii ''ask about budget''), JStr (ascii ''next: send a quote'')])"
proof -
  let ?msgs = "[JObj [(ascii ''speaker'', JStr (ascii ''user'')), (ascii ''text'', JStr (ascii ''hi''))]]"
  let ?ct = "ascii ''user'' @ ascii '': '' @ ascii ''hi''"
  let ?a = "\<lparr>chainPromise = Inr 0\<rparr>"
  let ?w1 = "\<lparr>trace = [InitChain, KnowledgeCheck], files = (\<lambda>p. None),
       agent_instance = Some \<lparr>chainPromise = Inr 0\<rparr>\<rparr>"
  let ?answer = "ascii ''1. ask about budget 2. next: send a quote''"
  have h1: "field short_talk ''conversation'' = JArr ?msgs"
    by (simp add: short_talk_def field_def)
  have h2: "?msgs \<noteq> []" by simp
  have h3: "conversationText calm ?msgs = Inr ?ct"
    by (simp add: conversationText_def render_message_def field_def ascii_def)
  have h5: "ask calm ?a (JStr (prompt_head @ ?ct @ prompt_tail)) ?w1
      = (Inr ?answer, snd (ask calm ?a (JStr (prompt_head @ ?ct @ prompt_tail)) ?w1))"
    using ask_calm [of ?a 0] by (metis agent.select_convs(1) prod.collapse)
  show ?thesis
    using categorization_keeps_every_suggestion [OF h1 h2 h3 getInstance_calm_fresh h5]
    unfolding parse_calm_answer split_marker_calm_answer
    by (simp add: Let_def trim_def ascii_def isWhiteSpace_def)
qed






section \<open>Knowledge ingestion: chunks, batches and the uploaded file\<close>

lemma batches_of_Nil [simp]: "batches_of n [] = []"
  by (simp add: batches_of.simps)

lemma batches_of_step:
  "0 < n \<Longrightarrow> xs \<noteq> [] \<Longrightarrow> batches_of n xs = take n xs # batches_of n (drop n xs)"
  by (simp add: batches_of.simps [of n xs])

lemma upserted_append: "upserted (xs @ ys) = upserted xs @ upserted ys"
  by (induction xs rule: upserted.induct) auto

lemma upserted_batches: "upserted (map IndexUpsert bs) = concat bs"
  by (induction bs) auto

lemma concat_batches_of: "0 < n \<Longrightarrow> concat (batches_of n xs) = xs"
proof (induction n xs rule: batches_of.induct)
  case (1 n xs)
  then show ?case
    by (cases "xs = []") (simp_all add: batches_of.simps [of n xs])
qed


lemma chunk_records_world:
  "chunk_records P pre src chunks i recs w = (res, w') \<Longrightarrow>
     \<exists>evs. trace w' = trace w @ evs \<and> upserted evs = []
       \<and> count_list evs InitChain = 0
       \<and> files w' = files w \<and> agent_instance w' = agent_instance w"
proof (induction chunks arbitrary: i recs w)
  case Nil
  then show ?case by auto
next
  case (Cons chunk rest)
  show ?case
  proof (cases "trim chunk = []")
    case True
    with Cons.prems have "chunk_records P pre src rest (Suc i) recs w = (res, w')" by simp
    from Cons.IH [OF this] show ?thesis .
  next
    case False
    note nb = this
    show ?thesis
    proof (cases "embedQuery P (trace w) (JStr chunk)")
      case (Inl e)
      with nb Cons.prems show ?thesis
        by (auto simp: log_event_def)
    next
      case (Inr v)
      let ?w1 = "log_event (EmbedQuery (JStr chunk)) w"
      let ?w2 = "log_event DateNow ?w1"
      show ?thesis
      proof (cases "truthy src")
        case True
        with nb Inr Cons.prems obtain r where
          "chunk_records P pre src rest (Suc i) (recs @ [r]) ?w2 = (res, w')"
          by (auto simp: Let_def)
        from Cons.IH [OF this] show ?thesis
          by (auto simp: log_event_def)
      next
        case False
        with nb Inr Cons.prems obtain r where
          "chunk_records P pre src rest (Suc i) (recs @ [r]) (log_event DateNow ?w2) = (res, w')"
          by (auto simp: Let_def)
        from Cons.IH [OF this] show ?thesis
          by (auto simp: log_event_def)
      qed
    qed
  qed
qed

lemma chunk_records_contents:
  "chunk_records P pre src chunks i recs w = (Inr recs', w') \<Longrightarrow>
     map meta_pageContent recs' = map meta_pageContent recs @ filter (\<lambda>seg. trim seg \<noteq> []) chunks"
proof (induction chunks arbitrary: i recs w)
  case Nil
  then show ?case by auto
next
  case (Cons chunk rest)
  show ?case
  proof (cases "trim chunk = []")
    case True
    with Cons.prems have "chunk_records P pre src rest (Suc i) recs w = (Inr recs', w')" by simp
    from Cons.IH [OF this] True show ?thesis by simp
  next
    case False
    note nb = this
    show ?thesis
    proof (cases "embedQuery P (trace w) (JStr chunk)")
      case (Inl e)
      with nb Cons.prems show ?thesis by simp
    next
      case (Inr v)
      let ?w1 = "log_event (EmbedQuery (JStr chunk)) w"
      let ?w2 = "log_event DateNow ?w1"
      let ?r = "\<lambda>source. \<lparr>rec_id = record_id pre (date_now P (trace ?w1)) i, rec_values = v,
                   meta_pageContent = chunk, meta_source = source\<rparr>"
      show ?thesis
      proof (cases "truthy src")
        case True
        with nb Inr Cons.prems have
          "chunk_records P pre src rest (Suc i) (recs @ [?r src]) ?w2 = (Inr recs', w')"
          by (simp add: Let_def)
        from Cons.IH [OF this] nb show ?thesis by simp
      next
        case False
        with nb Inr Cons.prems have
          "chunk_records P pre src rest (Suc i)
             (recs @ [?r (JStr (record_id pre (date_now P (trace ?w2)) i))]) (log_event DateNow ?w2)
           = (Inr recs', w')"
          by (simp add: Let_def)
        from Cons.IH [OF this] nb show ?thesis by simp
      qed
    qed
  qed
qed

lemma chunk_records_succeeds:
  assumes "\<forall>tr q. \<exists>v. embedQuery P tr q = Inr v"
  shows "\<exists>recs' w'. chunk_records P pre src chunks i recs w = (Inr recs', w')"
proof (induction chunks arbitrary: i recs w)
  case Nil
  then show ?case by simp
next
  case (Cons chunk rest)
  obtain v where v: "embedQuery P (trace w) (JStr chunk) = Inr v"
    using assms by blast
  show ?case
    using v Cons.IH by (simp add: Let_def split_def)
qed

lemma batch_answer_0: "batch_answer P tr (b # bs) 0 = index_upsert P tr b"
  by (simp add: batch_answer_def)

lemma batch_answer_Suc:
  "batch_answer P tr (b # bs) (Suc j) = batch_answer P (tr @ [IndexUpsert b]) bs j"
  by (simp add: batch_answer_def)

lemma upsert_batches_world:
  "upsert_batches P records i w = (res, w') \<Longrightarrow>
     \<exists>k. k \<le> length (batches_of BATCH_SIZE (drop i records))
       \<and> trace w' = trace w @ map IndexUpsert (take k (batches_of BATCH_SIZE (drop i records)))
       \<and> files w' = files w \<and> agent_instance w' = agent_instance w
       \<and> (case res of
             None \<Rightarrow> k = length (batches_of BATCH_SIZE (drop i records))
               \<and> (\<forall>j<k. batch_answer P (trace w) (batches_of BATCH_SIZE (drop i records)) j = None)
           | Some e \<Rightarrow> 0 < k
               \<and> (\<forall>j<k - 1. batch_answer P (trace w) (batches_of BATCH_SIZE (drop i records)) j = None)
               \<and> batch_answer P (trace w) (batches_of BATCH_SIZE (drop i records)) (k - 1) = Some e)"
proof (induction P records i w arbitrary: res w' rule: upsert_batches.induct)
  case (1 P records i w)
  let ?bs = "batches_of BATCH_SIZE (drop i records)"
  show ?case
  proof (cases "i < length records")
    case False
    then have "?bs = []" by simp
    moreover from False "1.prems" have "res = None" "w' = w"
      by (simp_all add: upsert_batches.simps [of P records i w])
    ultimately show ?thesis by simp
  next
    case True
    let ?batch = "slice i (i + BATCH_SIZE) records"
    let ?w1 = "log_event (IndexUpsert ?batch) w"
    let ?bs' = "batches_of BATCH_SIZE (drop (i + BATCH_SIZE) records)"
    have bs: "?bs = ?batch # ?bs'"
    proof -
      have "0 < BATCH_SIZE" and "drop i records \<noteq> []"
        using True by (simp_all add: BATCH_SIZE_def)
      then have "?bs = take BATCH_SIZE (drop i records)
                   # batches_of BATCH_SIZE (drop BATCH_SIZE (drop i records))"
        by (rule batches_of_step)
      then show ?thesis
        by (simp add: slice_def add.commute)
    qed
    have tr1: "trace ?w1 = trace w @ [IndexUpsert ?batch]"
      by (simp add: log_event_def)
    show ?thesis
    proof (cases "index_upsert P (trace w) ?batch")
      case (Some e)
      with True "1.prems" have "res = Some e" "w' = ?w1"
        by (simp_all add: upsert_batches.simps [of P records i w] Let_def)
      then show ?thesis
        using bs Some by (intro exI [of _ 1]) (simp add: log_event_def batch_answer_0)
    next
      case None
      with True "1.prems" have rec: "upsert_batches P records (i + BATCH_SIZE) ?w1 = (res, w')"
        by (simp add: upsert_batches.simps [of P records i w] Let_def)
      from "1.IH" [OF True refl refl None rec] obtain k where
        k: "k \<le> length ?bs'"
        and tr: "trace w' = trace ?w1 @ map IndexUpsert (take k ?bs')"
        and st: "files w' = files ?w1" "agent_instance w' = agent_instance ?w1"
        and rs: "(case res of
             None \<Rightarrow> k = length ?bs' \<and> (\<forall>j<k. batch_answer P (trace ?w1) ?bs' j = None)
           | Some e \<Rightarrow> 0 < k
               \<and> (\<forall>j<k - 1. batch_answer P (trace ?w1) ?bs' j = None)
               \<and> batch_answer P (trace ?w1) ?bs' (k - 1) = Some e)"
        by blast
      have ans: "batch_answer P (trace w) ?bs j
                  = (case j of 0 \<Rightarrow> None | Suc j' \<Rightarrow> batch_answer P (trace ?w1) ?bs' j')" for j
        unfolding bs tr1 using None by (cases j) (simp_all add: batch_answer_0 batch_answer_Suc)
      show ?thesis
      proof (intro exI [of _ "Suc k"] conjI)
        show "Suc k \<le> length ?bs" using k bs by simp
        show "trace w' = trace w @ map IndexUpsert (take (Suc k) ?bs)"
          using tr bs by (simp add: log_event_def)
        show "files w' = files w" using st by (simp add: log_event_def)
        show "agent_instance w' = agent_instance w" using st by (simp add: log_event_def)
        show "case res of
             None \<Rightarrow> Suc k = length ?bs \<and> (\<forall>j<Suc k. batch_answer P (trace w) ?bs j = None)
           | Some e \<Rightarrow> 0 < Suc k
               \<and> (\<forall>j<Suc k - 1. batch_answer P (trace w) ?bs j = None)
               \<and> batch_answer P (trace w) ?bs (Suc k - 1) = Some e"
        proof (cases res)
          case None
          with rs have "k = length ?bs'" and a: "\<forall>j<k. batch_answer P (trace ?w1) ?bs' j = None"
            by simp_all
          have "batch_answer P (trace w) ?bs j = None" if "j < Suc k" for j
            using that a by (cases j) (simp_all add: ans)
          with \<open>k = length ?bs'\<close> None bs show ?thesis by simp
        next
          case (Some e)
          with rs have pos: "0 < k"
            and a: "\<forall>j<k - 1. batch_answer P (trace ?w1) ?bs' j = None"
            and f: "batch_answer P (trace ?w1) ?bs' (k - 1) = Some e"
            by simp_all
          obtain k' where k': "k = Suc k'" using pos by (cases k) auto
          have "batch_answer P (trace w) ?bs j = None" if "j < k" for j
            using that a k' by (cases j) (simp_all add: ans)
          moreover have "batch_answer P (trace w) ?bs k = Some e"
            using f k' by (simp add: ans)
          ultimately show ?thesis
            using Some by simp
        qed
      qed
    qed
  qed
qed

lemma split_from_chars:
  "x \<in> set (split_from sep seg s) \<Longrightarrow> set x \<subseteq> set seg \<union> set s"
proof (induction sep seg s rule: split_from.induct)
  case (1 sep seg)
  then show ?case by simp
next
  case (2 sep seg c cs)
  show ?case
  proof (cases "sep \<noteq> [] \<and> take (length sep) (c # cs) = sep")
    case True
    with "2.prems" have "x = seg \<or> x \<in> set (split_from sep [] (drop (length sep) (c # cs)))"
      by simp
    then show ?thesis
    proof
      assume "x = seg"
      then show ?thesis by auto
    next
      assume "x \<in> set (split_from sep [] (drop (length sep) (c # cs)))"
      from "2.IH"(1) [OF True this] have "set x \<subseteq> set (drop (length sep) (c # cs))"
        by simp
      moreover have "set (drop (length sep) (c # cs)) \<subseteq> set (c # cs)"
        by (rule set_drop_subset)
      ultimately show ?thesis by blast
    qed
  next
    case False
    with "2.prems" have "x \<in> set (split_from sep (seg @ [c]) cs)"
      by auto
    from "2.IH"(2) [OF False this] show ?thesis by auto
  qed
qed

lemma trim_blank:
  assumes "\<forall>c\<in>set s. isWhiteSpace c"
  shows "trim s = []"
proof -
  have d: "dropWhile isWhiteSpace s = []"
    using assms by (induction s) auto
  show ?thesis
    unfolding trim_def d by simp
qed

lemma paragraphs_blank:
  assumes "\<forall>c\<in>set s. isWhiteSpace c"
  shows "paragraphs s = []"
proof -
  have "trim x = []" if "x \<in> set (split_str [0x000A, 0x000A] s)" for x
  proof -
    from that have "set x \<subseteq> set s"
      using split_from_chars [of x "[0x000A, 0x000A]" "[]" s] by (simp add: split_str_def)
    with assms show ?thesis
      by (intro trim_blank) blast
  qed
  then show ?thesis
    by (simp add: paragraphs_def filter_empty_conv)
qed

lemma ingest_batches:
  assumes "ingest P pre src s w = (r, w')" and "pinecone_index P = None"
    and "chunk_records P pre src (split_str [0x000A, 0x000A] s) 0 [] w = (Inr records, w1)"
  shows "\<exists>k. k \<le> length (batches_of BATCH_SIZE records)
           \<and> trace w' = trace w1 @ map IndexUpsert (take k (batches_of BATCH_SIZE records))
           \<and> files w' = files w1 \<and> agent_instance w' = agent_instance w1
           \<and> (k = length (batches_of BATCH_SIZE records) \<and> r = added (length records)
                \<and> (\<forall>j<k. batch_answer P (trace w1) (batches_of BATCH_SIZE records) j = None)
              \<or> 0 < k
                \<and> (\<forall>j<k - 1. batch_answer P (trace w1) (batches_of BATCH_SIZE records) j = None)
                \<and> (\<exists>e. batch_answer P (trace w1) (batches_of BATCH_SIZE records) (k - 1) = Some e
                         \<and> r = internal_error P e))"
proof -
  obtain res w2 where u: "upsert_batches P records 0 w1 = (res, w2)"
    by (cases "upsert_batches P records 0 w1")
  from upsert_batches_world [OF u] have
    "\<exists>k. k \<le> length (batches_of BATCH_SIZE records)
       \<and> trace w2 = trace w1 @ map IndexUpsert (take k (batches_of BATCH_SIZE records))
       \<and> files w2 = files w1 \<and> agent_instance w2 = agent_instance w1
       \<and> (case res of
             None \<Rightarrow> k = length (batches_of BATCH_SIZE records)
               \<and> (\<forall>j<k. batch_answer P (trace w1) (batches_of BATCH_SIZE records) j = None)
           | Some e \<Rightarrow> 0 < k
               \<and> (\<forall>j<k - 1. batch_answer P (trace w1) (batches_of BATCH_SIZE records) j = None)
               \<and> batch_answer P (trace w1) (batches_of BATCH_SIZE records) (k - 1) = Some e)"
    unfolding drop_0 .
  then obtain k where
    k: "k \<le> length (batches_of BATCH_SIZE records)"
    and tr: "trace w2 = trace w1 @ map IndexUpsert (take k (batches_of BATCH_SIZE records))"
    and st: "files w2 = files w1" "agent_instance w2 = agent_instance w1"
    and rs: "(case res of
             None \<Rightarrow> k = length (batches_of BATCH_SIZE records)
               \<and> (\<forall>j<k. batch_answer P (trace w1) (batches_of BATCH_SIZE records) j = None)
           | Some e \<Rightarrow> 0 < k
               \<and> (\<forall>j<k - 1. batch_answer P (trace w1) (batches_of BATCH_SIZE records) j = None)
               \<and> batch_answer P (trace w1) (batches_of BATCH_SIZE records) (k - 1) = Some e)"
    by blast
  show ?thesis
  proof (cases res)
    case None
    with assms u have "r = added (length records)" "w' = w2"
      by (simp_all add: ingest_def Let_def)
    with k tr st rs None show ?thesis by auto
  next
    case (Some e)
    with assms u have "r = internal_error P e" "w' = w2"
      by (simp_all add: ingest_def Let_def)
    with k tr st rs Some show ?thesis by auto
  qed
qed

lemma knowledge_add_ingest:
  "field b ''text'' = JStr s \<Longrightarrow> s \<noteq> [] \<Longrightarrow>
     knowledge_add P b w = ingest P ''manual'' (field b ''source'') s w"
  by (simp add: knowledge_add_def)

lemma knowledge_upload_ingest:
  "files w (file_path f) = Some content \<Longrightarrow>
     knowledge_upload P (Some f) w
       = ingest P ''file'' (JStr (originalname f)) content (w\<lparr>files := (files w)(file_path f := None)\<rparr>)"
  by (simp add: knowledge_upload_def)


lemma internal_error_surfaces:
  "internal_error P e = Response 500 (JObj kvs) \<Longrightarrow> field kvs ''message'' = JStr (err_message e)"
  by (auto simp: internal_error_def field_def ascii_def)

lemma ingest_world:
  assumes "ingest P pre src s w = (r, w')"
  shows "\<exists>evs. trace w' = trace w @ evs \<and> count_list evs InitChain = 0
           \<and> files w' = files w \<and> agent_instance w' = agent_instance w"
proof (cases "pinecone_index P")
  case (Some e)
  with assms show ?thesis by (simp add: ingest_def)
next
  case None
  obtain cr w1 where c: "chunk_records P pre src (split_str [0x000A, 0x000A] s) 0 [] w = (cr, w1)"
    by (cases "chunk_records P pre src (split_str [0x000A, 0x000A] s) 0 [] w")
  from chunk_records_world [OF c] obtain evs1 where
    e1: "trace w1 = trace w @ evs1" "count_list evs1 InitChain = 0"
      "files w1 = files w" "agent_instance w1 = agent_instance w"
    by blast
  show ?thesis
  proof (cases cr)
    case (Inl e)
    with assms None c have "w' = w1" by (simp add: ingest_def)
    with e1 show ?thesis by blast
  next
    case (Inr records)
    from ingest_batches [OF assms None c [unfolded Inr]] obtain k where
      "trace w' = trace w1 @ map IndexUpsert (take k (batches_of BATCH_SIZE records))"
      "files w' = files w1" "agent_instance w' = agent_instance w1"
      by blast
    moreover have "count_list (map IndexUpsert bs) InitChain = 0" for bs
      by (induction bs) auto
    ultimately show ?thesis
      using e1 by (intro exI [of _ "evs1 @ map IndexUpsert (take k (batches_of BATCH_SIZE records))"]) simp
  qed
qed

text \<open>
  C2. POST /knowledge/add with a string \<open>text\<close>: when the route answers 200, the records
  upserted by this request are, in order, one for each segment of the text between double
  newlines that is not blank after trimming, and the response is \<open>success: true\<close> with
  the message made of that count and the fixed words; the route does answer 200 when the
  text is not empty and every provider call succeeds; for the empty text it answers 400
  and does nothing; a text of white space only has no such segment.
\<close>

theorem knowledge_add_one_record_per_paragraph:
  assumes "field b ''text'' = JStr s" and "knowledge_add P b w = (r, w')"
  shows "(res_status r = 200 \<longrightarrow>
            (\<exists>evs. trace w' = trace w @ evs
               \<and> map meta_pageContent (upserted evs) = paragraphs s
               \<and> r = Response 200 (JObj [(ascii ''success'', JBool True),
                     (ascii ''message'', JStr (to_decimal (length (paragraphs s)) @
                        [0x4EF6, 0x306E, 0x30C9, 0x30AD, 0x30E5, 0x30E1, 0x30F3, 0x30C8, 0x304C,
                         0x8FFD, 0x52A0, 0x3055, 0x308C, 0x307E, 0x3057, 0x305F]))])))
       \<and> (s \<noteq> [] \<and> pinecone_index P = None \<and> (\<forall>tr q. \<exists>v. embedQuery P tr q = Inr v)
            \<and> (\<forall>tr rs. index_upsert P tr rs = None) \<longrightarrow> res_status r = 200)
       \<and> (s = [] \<longrightarrow> r = text_required \<and> w' = w)
       \<and> ((\<forall>c\<in>set s. isWhiteSpace c) \<longrightarrow> paragraphs s = [])"
proof -
  let ?P1 = "\<exists>evs. trace w' = trace w @ evs
               \<and> map meta_pageContent (upserted evs) = paragraphs s
               \<and> r = Response 200 (JObj [(ascii ''success'', JBool True),
                     (ascii ''message'', JStr (to_decimal (length (paragraphs s)) @
                        [0x4EF6, 0x306E, 0x30C9, 0x30AD, 0x30E5, 0x30E1, 0x30F3, 0x30C8, 0x304C,
                         0x8FFD, 0x52A0, 0x3055, 0x308C, 0x307E, 0x3057, 0x305F]))])"
  have p1: ?P1 if ok: "res_status r = 200"
  proof -
  have ne: "s \<noteq> []"
  proof
    assume "s = []"
    with assms have "r = text_required" by (simp add: knowledge_add_def)
    with ok show False by (simp add: text_required_def)
  qed
  let ?src = "field b ''source''"
  have ing: "ingest P ''manual'' ?src s w = (r, w')"
    using assms ne by (simp add: knowledge_add_ingest)
  have pi: "pinecone_index P = None"
  proof (cases "pinecone_index P")
    case (Some e)
    with ing have "r = internal_error P e" by (simp add: ingest_def)
    with ok show ?thesis by (simp add: internal_error_def)
  qed simp
  obtain cr w1 where c: "chunk_records P ''manual'' ?src (split_str [0x000A, 0x000A] s) 0 [] w = (cr, w1)"
    by (cases "chunk_records P ''manual'' ?src (split_str [0x000A, 0x000A] s) 0 [] w")
  obtain records where cr: "cr = Inr records"
  proof (cases cr)
    case (Inl e)
    with ing pi c have "r = internal_error P e" by (simp add: ingest_def)
    with ok show ?thesis by (simp add: internal_error_def)
  qed
  from chunk_records_world [OF c] obtain evs1 where
    e1: "trace w1 = trace w @ evs1" "upserted evs1 = []"
    by blast
  from chunk_records_contents [OF c [unfolded cr]]
  have pc: "map meta_pageContent records = paragraphs s"
    by (simp add: paragraphs_def)
  from ingest_batches [OF ing pi c [unfolded cr]] obtain k where
    tr: "trace w' = trace w1 @ map IndexUpsert (take k (batches_of BATCH_SIZE records))"
    and alt: "k = length (batches_of BATCH_SIZE records) \<and> r = added (length records)
              \<or> (\<exists>e. r = internal_error P e)"
    by blast
  from alt ok have k: "k = length (batches_of BATCH_SIZE records)" and r: "r = added (length records)"
    by (auto simp: internal_error_def)
  have "upserted (map IndexUpsert (take k (batches_of BATCH_SIZE records))) = records"
    using k by (simp add: upserted_batches concat_batches_of BATCH_SIZE_def)
  then have up: "map meta_pageContent (upserted (evs1 @ map IndexUpsert (take k (batches_of BATCH_SIZE records))))
      = paragraphs s"
    using e1 pc by (simp add: upserted_append)
  have len: "length records = length (paragraphs s)"
    using pc by (metis length_map)
  show ?thesis
    using tr e1 up r len
    by (intro exI [of _ "evs1 @ map IndexUpsert (take k (batches_of BATCH_SIZE records))"])
       (simp add: added_def added_message_def)
  qed
  have p2: "res_status r = 200"
    if h: "s \<noteq> [] \<and> pinecone_index P = None \<and> (\<forall>tr q. \<exists>v. embedQuery P tr q = Inr v)
            \<and> (\<forall>tr rs. index_upsert P tr rs = None)"
  proof -
  let ?src = "field b ''source''"
  have ing: "ingest P ''manual'' ?src s w = (r, w')"
    using assms h by (simp add: knowledge_add_ingest)
  from h obtain records w1 where
    c: "chunk_records P ''manual'' ?src (split_str [0x000A, 0x000A] s) 0 [] w = (Inr records, w1)"
    using chunk_records_succeeds [of P "''manual''" ?src] by blast
  from ingest_batches [OF ing _ c] h have "r = added (length records)"
    by (auto simp: batch_answer_def)
  then show ?thesis by (simp add: added_def)
  qed
  have p3: "r = text_required \<and> w' = w" if "s = []"
    using assms that by (simp add: knowledge_add_def)
  have p4: "paragraphs s = []" if "\<forall>c\<in>set s. isWhiteSpace c"
    using that by (rule paragraphs_blank)
  from p1 p2 p3 p4 show ?thesis by blast
qed


lemma paragraphs_AB:
  "paragraphs (ascii ''A'' @ [0x000A, 0x000A] @ ascii ''B'' @ [0x000A, 0x000A]) = [ascii ''A'', ascii ''B'']"
  by (simp add: paragraphs_def split_str_def trim_def isWhiteSpace_def ascii_def)


theorem knowledge_add_one_record_per_paragraph_witness:
  "fst (knowledge_add calm add_AB fresh)
     = Response 200 (JObj [(ascii ''success'', JBool True),
         (ascii ''message'', JStr (ascii ''2'' @
            [0x4EF6, 0x306E, 0x30C9, 0x30AD, 0x30E5, 0x30E1, 0x30F3, 0x30C8, 0x304C,
             0x8FFD, 0x52A0, 0x3055, 0x308C, 0x307E, 0x3057, 0x305F]))])
   \<and> map meta_pageContent (upserted (trace (snd (knowledge_add calm add_AB fresh))))
       = [ascii ''A'', ascii ''B'']"
proof -
  let ?s = "ascii ''A'' @ [0x000A, 0x000A] @ ascii ''B'' @ [0x000A, 0x000A]"
  let ?r = "fst (knowledge_add calm add_AB fresh)"
  let ?w = "snd (knowledge_add calm add_AB fresh)"
  have h1: "field add_AB ''text'' = JStr ?s"
    by (simp add: add_AB_def field_def)
  have h2: "knowledge_add calm add_AB fresh = (?r, ?w)"
    by simp
  note t = knowledge_add_one_record_per_paragraph [OF h1 h2]
  have ne: "?s \<noteq> []" by (simp add: ascii_def)
  have "pinecone_index calm = None" "\<forall>tr q. \<exists>v. embedQuery calm tr q = Inr v"
    "\<forall>tr rs. index_upsert calm tr rs = None"
    by (simp_all add: calm_def)
  with t ne have ok: "res_status ?r = 200" by blast
  with t obtain evs where
    "trace ?w = trace fresh @ evs" "map meta_pageContent (upserted evs) = paragraphs ?s"
    "?r = Response 200 (JObj [(ascii ''success'', JBool True),
                     (ascii ''message'', JStr (to_decimal (length (paragraphs ?s)) @
                        [0x4EF6, 0x306E, 0x30C9, 0x30AD, 0x30E5, 0x30E1, 0x30F3, 0x30C8, 0x304C,
                         0x8FFD, 0x52A0, 0x3055, 0x308C, 0x307E, 0x3057, 0x305F]))])"
    by blast
  moreover have "to_decimal (length [ascii ''A'', ascii ''B'']) = ascii ''2''"
    by (simp add: to_decimal.simps ascii_def)
  ultimately show ?thesis
    unfolding paragraphs_AB by (simp add: fresh_def del: list.size length_Cons)
qed



section \<open>Record ids\<close>







lemma chunk_records_ids:
  "chunk_records P pre src chunks i recs w = (Inr recs', w') \<Longrightarrow> x \<in> set recs' \<Longrightarrow>
     x \<in> set recs
     \<or> (\<exists>e e' j. trace w' = trace w @ e @ e' \<and> e \<noteq> [] \<and> e' \<noteq> []
           \<and> rec_id x = record_id pre (date_now P (trace w @ e)) j)"
proof (induction chunks arbitrary: i recs w)
  case Nil
  then show ?case by simp
next
  case (Cons chunk rest)
  show ?case
  proof (cases "trim chunk = []")
    case True
    with Cons.prems have "chunk_records P pre src rest (Suc i) recs w = (Inr recs', w')" by simp
    from Cons.IH [OF this Cons.prems(2)] show ?thesis .
  next
    case False
    note nb = this
    show ?thesis
    proof (cases "embedQuery P (trace w) (JStr chunk)")
      case (Inl e)
      with nb Cons.prems show ?thesis by simp
    next
      case (Inr v)
      let ?w1 = "log_event (EmbedQuery (JStr chunk)) w"
      let ?w2 = "log_event DateNow ?w1"
      let ?w3 = "if truthy src then ?w2 else log_event DateNow ?w2"
      let ?source = "if truthy src then src else JStr (record_id pre (date_now P (trace ?w2)) i)"
      let ?r = "\<lparr>rec_id = record_id pre (date_now P (trace ?w1)) i, rec_values = v,
                   meta_pageContent = chunk, meta_source = ?source\<rparr>"
      have rec: "chunk_records P pre src rest (Suc i) (recs @ [?r]) ?w3 = (Inr recs', w')"
        using nb Inr Cons.prems(1) by (simp add: Let_def split: if_splits)
      obtain late where late: "trace ?w3 = trace w @ [EmbedQuery (JStr chunk)] @ late" "late \<noteq> []"
        by (cases "truthy src") (simp_all add: log_event_def)
      from chunk_records_world [OF rec] obtain evs where evs: "trace w' = trace ?w3 @ evs"
        by blast
      from Cons.IH [OF rec Cons.prems(2)]
      consider (old) "x \<in> set recs" | (pushed) "x = ?r"
        | (new) e e' j where "trace w' = trace ?w3 @ e @ e'" "e \<noteq> []" "e' \<noteq> []"
            "rec_id x = record_id pre (date_now P (trace ?w3 @ e)) j"
        by auto
      then show ?thesis
      proof cases
        case old
        then show ?thesis by simp
      next
        case pushed
        have "trace w' = trace w @ [EmbedQuery (JStr chunk)] @ (late @ evs)"
          using evs late by simp
        moreover have "rec_id x = record_id pre (date_now P (trace w @ [EmbedQuery (JStr chunk)])) i"
          using pushed by (simp add: log_event_def)
        ultimately show ?thesis
          using late(2) by (intro disjI2 exI [of _ "[EmbedQuery (JStr chunk)]"] exI [of _ "late @ evs"] exI [of _ i]) simp
      next
        case new
        have "trace w' = trace w @ ([EmbedQuery (JStr chunk)] @ late @ e) @ e'"
          using new(1) late by simp
        moreover have "rec_id x = record_id pre (date_now P (trace w @ ([EmbedQuery (JStr chunk)] @ late @ e))) j"
          using new(4) late by simp
        ultimately show ?thesis
          using new(3) by (intro disjI2 exI [of _ "[EmbedQuery (JStr chunk)] @ late @ e"] exI [of _ e'] exI [of _ j]) simp
      qed
    qed
  qed
qed

lemma ingest_ids:
  assumes "ingest P pre src s w = (r, w')"
    and "x \<in> set (upserted (drop (length (trace w)) (trace w')))"
  shows "\<exists>e e' j. trace w' = trace w @ e @ e' \<and> e \<noteq> [] \<and> e' \<noteq> []
           \<and> rec_id x = record_id pre (date_now P (trace w @ e)) j"
proof (cases "pinecone_index P")
  case (Some e)
  with assms show ?thesis by (simp add: ingest_def)
next
  case None
  obtain cr w1 where c: "chunk_records P pre src (split_str [0x000A, 0x000A] s) 0 [] w = (cr, w1)"
    by (cases "chunk_records P pre src (split_str [0x000A, 0x000A] s) 0 [] w")
  from chunk_records_world [OF c] obtain evs1 where
    e1: "trace w1 = trace w @ evs1" "upserted evs1 = []"
    by blast
  show ?thesis
  proof (cases cr)
    case (Inl e)
    with assms None c have "w' = w1" by (simp add: ingest_def)
    with e1 assms(2) show ?thesis by simp
  next
    case (Inr records)
    from ingest_batches [OF assms(1) None c [unfolded Inr]] obtain k where
      tr: "trace w' = trace w1 @ map IndexUpsert (take k (batches_of BATCH_SIZE records))"
      by blast
    have "upserted (drop (length (trace w)) (trace w')) = concat (take k (batches_of BATCH_SIZE records))"
      using tr e1 by (simp add: upserted_append upserted_batches)
    moreover have "set (concat (take k (batches_of BATCH_SIZE records))) \<subseteq> set records"
    proof -
      have "set (concat (take k (batches_of BATCH_SIZE records)))
              \<subseteq> set (concat (batches_of BATCH_SIZE records))"
        using set_take_subset [of k "batches_of BATCH_SIZE records"] by auto
      then show ?thesis
        by (simp add: concat_batches_of BATCH_SIZE_def)
    qed
    ultimately have "x \<in> set records"
      using assms(2) by auto
    from chunk_records_ids [OF c [unfolded Inr] this] obtain e e' j where
      "trace w1 = trace w @ e @ e'" "e \<noteq> []" "e' \<noteq> []"
      "rec_id x = record_id pre (date_now P (trace w @ e)) j"
      by auto
    then show ?thesis
      using tr
      by (intro exI [of _ e] exI [of _ "e' @ map IndexUpsert (take k (batches_of BATCH_SIZE records))"]
            exI [of _ j]) simp
  qed
qed

lemma knowledge_add_ids:
  assumes "knowledge_add P b w = (r, w')"
    and "x \<in> set (upserted (drop (length (trace w)) (trace w')))"
  shows "\<exists>e e' j. trace w' = trace w @ e @ e' \<and> e \<noteq> [] \<and> e' \<noteq> []
           \<and> rec_id x = record_id ''manual'' (date_now P (trace w @ e)) j"
proof (cases "\<exists>s. field b ''text'' = JStr s \<and> s \<noteq> []")
  case True
  then obtain s where "field b ''text'' = JStr s" "s \<noteq> []" by blast
  with assms(1) have "ingest P ''manual'' (field b ''source'') s w = (r, w')"
    by (simp add: knowledge_add_ingest)
  from ingest_ids [OF this assms(2)] show ?thesis .
next
  case False
  with assms(1) have "w' = w"
    by (cases "field b ''text''") (auto simp: knowledge_add_def Let_def split: if_splits)
  with assms(2) show ?thesis by simp
qed





section \<open>Answering without knowledge\<close>

lemma getRelevantDocuments_world:
  "\<exists>evs. trace (snd (getRelevantDocuments P q w)) = trace w @ evs
       \<and> count_list evs InitChain = 0
       \<and> files (snd (getRelevantDocuments P q w)) = files w
       \<and> agent_instance (snd (getRelevantDocuments P q w)) = agent_instance w"
  by (auto simp: getRelevantDocuments_def log_event_def Let_def split: sum.splits option.splits)

lemma getRelevantDocuments_nothing:
  "store_gives_nothing P q w \<Longrightarrow> fst (getRelevantDocuments P q w) = []"
  by (auto simp: store_gives_nothing_def getRelevantDocuments_def log_event_def Let_def
           split: sum.splits option.splits)

text \<open>
  C4. When the embedding call fails, or the query of the index fails or finds nothing, the
  retriever returns the empty list and raises nothing; \<open>ask\<close> then returns what the model
  generates from the question alone, and POST /ask answers 200 with that answer whenever the
  model gives one.
\<close>

theorem ask_answers_without_knowledge:
  assumes "store_gives_nothing P q w"
  shows "fst (getRelevantDocuments P q w) = []
       \<and> (\<forall>a c. chainPromise a = Inr c \<longrightarrow>
            fst (ask P a q w) = model_call P (trace (snd (getRelevantDocuments P q w))) q [])
       \<and> (\<forall>b w0 a c s answer.
            field b ''question'' = q \<and> truthy q \<and> to_string P q = Inr s
            \<and> getInstance P w0 = (a, w) \<and> chainPromise a = Inr c
            \<and> model_call P (trace (snd (getRelevantDocuments P q w))) q [] = Inr answer
            \<longrightarrow> fst (askRoute_post P b w0) = Inr (Response 200 (JObj [(ascii ''answer'', JStr answer)])))"
proof -
  have d: "fst (getRelevantDocuments P q w) = []"
    using assms by (rule getRelevantDocuments_nothing)
  have a: "fst (ask P a q w) = model_call P (trace (snd (getRelevantDocuments P q w))) q []"
    if "chainPromise a = Inr c" for a c
    using that d by (simp add: ask_def chain_call_def split_def Let_def)
  have "fst (askRoute_post P b w0) = Inr (Response 200 (JObj [(ascii ''answer'', JStr answer)]))"
    if h: "field b ''question'' = q \<and> truthy q \<and> to_string P q = Inr s
            \<and> getInstance P w0 = (a, w) \<and> chainPromise a = Inr c
            \<and> model_call P (trace (snd (getRelevantDocuments P q w))) q [] = Inr answer"
    for b w0 a c s answer
  proof -
    from h a have "fst (ask P a q w) = Inr answer" by simp
    then obtain w2 where "ask P a q w = (Inr answer, w2)"
      by (cases "ask P a q w") simp
    with h show ?thesis
      by (simp add: askRoute_post_def)
  qed
  with d a show ?thesis by blast
qed

lemma getInstance_fresh:
  "init_chain P = (\<lambda>tr. None) \<Longrightarrow>
   getInstance P fresh =
     (\<lparr>chainPromise = Inr 0\<rparr>,
      \<lparr>trace = [InitChain, KnowledgeCheck], files = (\<lambda>p. None),
       agent_instance = Some \<lparr>chainPromise = Inr 0\<rparr>\<rparr>)"
  by (simp add: getInstance_def new_SalesCoachAgent_def initChain_def fresh_def log_event_def)

theorem ask_answers_without_knowledge_witness:
  "fst (askRoute_post index_down asked fresh)
     = Inr (Response 200 (JObj [(ascii ''answer'',
         JStr (ascii ''1. ask about budget 2. next: send a quote''))]))
   \<and> fst (askRoute_post no_embedding asked fresh)
     = Inr (Response 200 (JObj [(ascii ''answer'',
         JStr (ascii ''1. ask about budget 2. next: send a quote''))]))"
proof -
  let ?q = "JStr (ascii ''hi'')"
  let ?a = "\<lparr>chainPromise = Inr 0\<rparr>"
  let ?w = "\<lparr>trace = [InitChain, KnowledgeCheck], files = (\<lambda>p. None),
       agent_instance = Some \<lparr>chainPromise = Inr 0\<rparr>\<rparr>"
  let ?answer = "ascii ''1. ask about budget 2. next: send a quote''"
  have f: "field asked ''question'' = ?q" "truthy ?q"
    by (simp_all add: asked_def field_def ascii_def)
  have s1: "store_gives_nothing index_down ?q ?w"
    by (simp add: store_gives_nothing_def index_down_def calm_def)
  have s2: "store_gives_nothing no_embedding ?q ?w"
    by (simp add: store_gives_nothing_def no_embedding_def calm_def)
  have g1: "getInstance index_down fresh = (?a, ?w)"
    by (rule getInstance_fresh) (simp add: index_down_def calm_def)
  have g2: "getInstance no_embedding fresh = (?a, ?w)"
    by (rule getInstance_fresh) (simp add: no_embedding_def calm_def)
  have m1: "model_call index_down tr ?q [] = Inr ?answer" for tr
    by (simp add: index_down_def calm_def)
  have m2: "model_call no_embedding tr ?q [] = Inr ?answer" for tr
    by (simp add: no_embedding_def calm_def)
  have c: "chainPromise ?a = Inr 0" by simp
  have t1: "to_string index_down ?q = Inr (ascii ''hi'')"
    and t2: "to_string no_embedding ?q = Inr (ascii ''hi'')"
    by simp_all
  show ?thesis
    using ask_answers_without_knowledge [OF s1] ask_answers_without_knowledge [OF s2]
      f g1 g2 m1 m2 c t1 t2
    by blast
qed

section \<open>One pipeline for the process\<close>

lemma quiet_single:
  "single_pipeline w \<Longrightarrow> trace w' = trace w @ evs \<Longrightarrow> count_list evs InitChain = 0 \<Longrightarrow>
     agent_instance w' = agent_instance w \<Longrightarrow> single_pipeline w'"
  by (simp add: single_pipeline_def)

lemma getInstance_cached: "agent_instance w = Some a \<Longrightarrow> getInstance P w = (a, w)"
  by (simp add: getInstance_def)

lemma getInstance_single:
  "single_pipeline w \<Longrightarrow> single_pipeline (snd (getInstance P w))"
  by (cases "agent_instance w")
     (simp_all add: single_pipeline_def getInstance_def new_SalesCoachAgent_def initChain_def
        log_event_def)

lemma getInstance_keeps:
  "agent_instance w = Some a \<Longrightarrow> agent_instance (snd (getInstance P w)) = Some a"
  by (simp add: getInstance_def)

lemma ask_world:
  "\<exists>evs. trace (snd (ask P a q w)) = trace w @ evs \<and> count_list evs InitChain = 0
       \<and> files (snd (ask P a q w)) = files w
       \<and> agent_instance (snd (ask P a q w)) = agent_instance w"
proof (cases "chainPromise a")
  case (Inl e)
  then show ?thesis by (simp add: ask_def)
next
  case (Inr c)
  obtain evs where "trace (snd (getRelevantDocuments P q w)) = trace w @ evs"
    "count_list evs InitChain = 0"
    "files (snd (getRelevantDocuments P q w)) = files w"
    "agent_instance (snd (getRelevantDocuments P q w)) = agent_instance w"
    using getRelevantDocuments_world by blast
  then show ?thesis
    using Inr
    by (intro exI [of _ "evs @ [ModelCall q (fst (getRelevantDocuments P q w))]"])
       (simp add: ask_def chain_call_def split_def Let_def log_event_def)
qed

lemma ask_single: "single_pipeline w \<Longrightarrow> single_pipeline (snd (ask P a q w))"
  using ask_world [of P a q w] quiet_single by blast

lemma ask_keeps: "agent_instance (snd (ask P a q w)) = agent_instance w"
  using ask_world [of P a q w] by blast

lemma askRoute_post_world:
  "snd (askRoute_post P b w) = w
   \<or> snd (askRoute_post P b w)
       = snd (ask P (fst (getInstance P w)) (field b ''question'') (snd (getInstance P w)))"
  by (auto simp: askRoute_post_def Let_def split_def split: sum.splits)

lemma coaching_world:
  "snd (coaching P b w) = w
   \<or> (\<exists>q. snd (coaching P b w) = snd (ask P (fst (getInstance P w)) q (snd (getInstance P w))))"
  by (auto simp: coaching_def Let_def split_def split: sum.splits)

lemma knowledge_add_world:
  "\<exists>evs. trace (snd (knowledge_add P b w)) = trace w @ evs \<and> count_list evs InitChain = 0
       \<and> agent_instance (snd (knowledge_add P b w)) = agent_instance w"
proof (cases "\<exists>s. field b ''text'' = JStr s \<and> s \<noteq> []")
  case True
  then obtain s where s: "field b ''text'' = JStr s" "s \<noteq> []" by blast
  obtain r w' where i: "ingest P ''manual'' (field b ''source'') s w = (r, w')"
    by (cases "ingest P ''manual'' (field b ''source'') s w")
  from ingest_world [OF i] i s show ?thesis
    by (auto simp: knowledge_add_ingest)
next
  case False
  then have "snd (knowledge_add P b w) = w"
    by (cases "field b ''text''") (auto simp: knowledge_add_def Let_def)
  then show ?thesis by simp
qed

lemma knowledge_upload_world:
  "\<exists>evs. trace (snd (knowledge_upload P f w)) = trace w @ evs \<and> count_list evs InitChain = 0
       \<and> agent_instance (snd (knowledge_upload P f w)) = agent_instance w"
proof (cases "\<exists>u content. f = Some u \<and> files w (file_path u) = Some content")
  case True
  then obtain u content where u: "f = Some u" "files w (file_path u) = Some content" by blast
  let ?w1 = "w\<lparr>files := (files w)(file_path u := None)\<rparr>"
  obtain r w' where i: "ingest P ''file'' (JStr (originalname u)) content ?w1 = (r, w')"
    by (cases "ingest P ''file'' (JStr (originalname u)) content ?w1")
  from ingest_world [OF i] i u show ?thesis
    by (auto simp: knowledge_upload_ingest)
next
  case False
  then have "snd (knowledge_upload P f w) = w"
    by (auto simp: knowledge_upload_def split: option.splits)
  then show ?thesis by simp
qed

lemma handle_single: "single_pipeline w \<Longrightarrow> single_pipeline (handle P req w)"
proof (cases req)
  case (PostAsk b)
  assume "single_pipeline w"
  then show ?thesis
    using PostAsk askRoute_post_world [of P b w] getInstance_single [of w P] ask_single
    by auto
next
  case (PostCoaching b)
  assume "single_pipeline w"
  then show ?thesis
    using PostCoaching coaching_world [of P b w] getInstance_single [of w P] ask_single
    by auto
next
  case (PostKnowledgeAdd b)
  assume "single_pipeline w"
  then show ?thesis
    using PostKnowledgeAdd knowledge_add_world [of P b w] quiet_single by auto
next
  case (PostKnowledgeUpload f)
  assume "single_pipeline w"
  then show ?thesis
    using PostKnowledgeUpload knowledge_upload_world [of P f w] quiet_single by auto
qed

lemma handle_keeps: "agent_instance w = Some a \<Longrightarrow> agent_instance (handle P req w) = Some a"
proof (cases req)
  case (PostAsk b)
  assume "agent_instance w = Some a"
  then show ?thesis
    using PostAsk askRoute_post_world [of P b w] getInstance_cached [of w a P] ask_keeps
    by auto
next
  case (PostCoaching b)
  assume "agent_instance w = Some a"
  then show ?thesis
    using PostCoaching coaching_world [of P b w] getInstance_cached [of w a P] ask_keeps
    by auto
next
  case (PostKnowledgeAdd b)
  assume "agent_instance w = Some a"
  then show ?thesis
    using PostKnowledgeAdd knowledge_add_world [of P b w] by auto
next
  case (PostKnowledgeUpload f)
  assume "agent_instance w = Some a"
  then show ?thesis
    using PostKnowledgeUpload knowledge_upload_world [of P f w] by auto
qed

lemma serve_single: "single_pipeline w \<Longrightarrow> single_pipeline (serve P reqs w)"
  unfolding serve_def by (induction reqs arbitrary: w) (auto intro: handle_single)

lemma serve_keeps: "agent_instance w = Some a \<Longrightarrow> agent_instance (serve P reqs w) = Some a"
  unfolding serve_def by (induction reqs arbitrary: w) (auto intro: handle_keeps)

lemma integrated_server_builds_at_most_one_pipeline:
  "count_list (trace (serve P reqs fresh)) InitChain \<le> 1"
proof -
  have "single_pipeline fresh"
    by (simp add: single_pipeline_def fresh_def)
  then have "single_pipeline (serve P reqs fresh)"
    by (rule serve_single)
  then show ?thesis
    by (simp add: single_pipeline_def split: option.splits)
qed

lemma app_ask_world:
  "\<exists>evs. trace (snd (app_ask P a q w)) = trace w @ evs \<and> count_list evs InitChain = 0"
proof (cases "app_chainPromise a")
  case (Inl e)
  then show ?thesis by (simp add: app_ask_def)
next
  case (Inr p)
  obtain c content where p: "p = (c, content)" by (cases p)
  show ?thesis
  proof (cases "embedQuery P (trace w) q")
    case (Inl e)
    with Inr p show ?thesis
      by (intro exI [of _ "[EmbedQuery q]"]) (simp add: app_ask_def log_event_def)
  next
    case (Inr v)
    with \<open>app_chainPromise a = Inr p\<close> p show ?thesis
      by (intro exI [of _ "[EmbedQuery q, ModelCall q [\<lparr>pageContent = content, doc_source = []\<rparr>]]"])
         (simp add: app_ask_def log_event_def Let_def)
  qed
qed

lemma app_initChain_world:
  "trace (snd (app_initChain P w)) = trace w @ [InitChain]"
  by (simp add: app_initChain_def log_event_def Let_def split: option.splits)

lemma app_route_builds_a_pipeline:
  assumes "truthy (field b ''question'')"
  shows "count_list (trace (snd (app_askRoute_post P b w))) InitChain
           = Suc (count_list (trace w) InitChain)"
proof -
  let ?a = "fst (app_new_SalesCoachAgent P w)"
  let ?w1 = "snd (app_new_SalesCoachAgent P w)"
  have w1: "trace ?w1 = trace w @ [InitChain]"
    using app_initChain_world [of P w] by (simp add: app_new_SalesCoachAgent_def split_def Let_def)
  obtain evs where evs: "trace (snd (app_ask P ?a (field b ''question'') ?w1)) = trace ?w1 @ evs"
    "count_list evs InitChain = 0"
    using app_ask_world by blast
  have "snd (app_askRoute_post P b w) = snd (app_ask P ?a (field b ''question'') ?w1)"
    using assms by (simp add: app_askRoute_post_def Let_def split_def split: sum.splits)
  with evs w1 show ?thesis by simp
qed

text \<open>
  C1. The route of \<open>src/app/src/ask.ts\<close> builds a pipeline for every request: after one
  valid request \<open>initChain\<close> has run once, after a second one twice. The integrated
  server, given the same two requests, runs it once (and never more than once, whatever the
  requests: \<open>integrated_server_builds_at_most_one_pipeline\<close>).
\<close>

theorem app_route_builds_a_pipeline_for_each_request:
  "count_list (trace (snd (app_askRoute_post calm asked with_fake_db))) InitChain = 1
   \<and> count_list (trace (snd (app_askRoute_post calm asked
                                (snd (app_askRoute_post calm asked with_fake_db))))) InitChain = 2
   \<and> count_list (trace (serve calm [PostAsk asked, PostAsk asked] fresh)) InitChain = 1"
proof -
  have t: "truthy (field asked ''question'')"
    by (simp add: asked_def field_def ascii_def)
  have "count_list (trace with_fake_db) InitChain = 0"
    by (simp add: with_fake_db_def fresh_def)
  then have a: "count_list (trace (snd (app_askRoute_post calm asked with_fake_db))) InitChain = 1"
    and b: "count_list (trace (snd (app_askRoute_post calm asked
                                (snd (app_askRoute_post calm asked with_fake_db))))) InitChain = 2"
    by (simp_all add: app_route_builds_a_pipeline [OF t])
  have "agent_instance (snd (askRoute_post calm asked fresh)) \<noteq> None"
    using getInstance_fresh [of calm]
    by (simp add: askRoute_post_def asked_def field_def Let_def split_def ask_keeps calm_def
        ascii_def split: sum.splits)
  moreover have "single_pipeline (serve calm [PostAsk asked, PostAsk asked] fresh)"
    by (rule serve_single) (simp add: single_pipeline_def fresh_def)
  moreover have "agent_instance (serve calm [PostAsk asked, PostAsk asked] fresh) \<noteq> None"
    using calculation(1) handle_keeps [of "snd (askRoute_post calm asked fresh)" _ calm "PostAsk asked"]
    by (auto simp: serve_def)
  ultimately have "count_list (trace (serve calm [PostAsk asked, PostAsk asked] fresh)) InitChain = 1"
    by (auto simp: single_pipeline_def)
  with a b show ?thesis by simp
qed

end
